theory Spec2Isabelle
  imports Complex_Main "HOL-Library.Multiset"
begin

section \<open>Go channels\<close>

text \<open>
  A buffered Go channel \<^verbatim>\<open>make(chan T, n)\<close>: the queued values (oldest first), the
  capacity and whether \<^verbatim>\<open>close\<close> has been called on it.
\<close>

record 'a chan =
  buf :: "'a list"
  cap :: nat
  is_closed :: bool

definition make_chan :: "nat \<Rightarrow> 'a chan" where
  "make_chan n = \<lparr>buf = [], cap = n, is_closed = False\<rparr>"

text \<open>The run-time panics of Go that the modelled code can raise.\<close>

datatype panic = SendOnClosedChannel | CloseOfClosedChannel | NegativeWaitGroupCounter

text \<open>
  The outcome of one send attempt \<^verbatim>\<open>select { case ch <- v: ... default: ... }\<close>.
  A send on a closed channel panics in Go, also inside a \<^verbatim>\<open>select\<close> with a
  \<^verbatim>\<open>default\<close> branch; on an open channel the send case is ready exactly when
  the buffer has a free slot, otherwise the \<^verbatim>\<open>default\<close> branch runs.
\<close>

datatype 'a send_attempt = SendOk "'a chan" | SendWouldBlock | SendPanics

definition try_send :: "'a \<Rightarrow> 'a chan \<Rightarrow> 'a send_attempt" where
  "try_send v ch =
     (if is_closed ch then SendPanics
      else if length (buf ch) < cap ch then SendOk (ch\<lparr>buf := buf ch @ [v]\<rparr>)
      else SendWouldBlock)"

text \<open>\<^verbatim>\<open>close(ch)\<close>: closing a closed channel panics.\<close>

definition close_chan :: "'a chan \<Rightarrow> panic + 'a chan" where
  "close_chan ch = (if is_closed ch then Inl CloseOfClosedChannel else Inr (ch\<lparr>is_closed := True\<rparr>))"

text \<open>
  What a receiver finds at a channel: a value (buffered values are delivered also
  after the close), the end of a closed and drained channel, or nothing yet (the
  receiver blocks).
\<close>

datatype 'a recv_attempt = RecvOk 'a "'a chan" | RecvClosed | RecvWouldBlock

definition try_recv :: "'a chan \<Rightarrow> 'a recv_attempt" where
  "try_recv ch =
     (case buf ch of
        v # vs \<Rightarrow> RecvOk v (ch\<lparr>buf := vs\<rparr>)
      | [] \<Rightarrow> if is_closed ch then RecvClosed else RecvWouldBlock)"

section \<open>The client registry (broadcaster.go)\<close>

record SSEEvent =
  Data :: string

text \<open>
  Channels are reference values: \<^verbatim>\<open>NewClient\<close> hands the two channels of a session
  to its caller, and they live on after \<^verbatim>\<open>RemoveClient\<close> has deleted the map entry.
  The channels are therefore kept in two stores, addressed by the numbers that
  \<^verbatim>\<open>ClientInfo\<close> holds. The per-session mutex and the registry's RWMutex are not
  state of the model: every exported method runs as one atomic step.
\<close>

type_synonym ref = nat

record ClientInfo =
  sseChannel :: ref
  cancelChannel :: ref
  isCancelled :: bool

text \<open>What the methods print on standard output with \<^verbatim>\<open>fmt.Printf\<close>.\<close>

datatype printed =
    PrintRegistered string
  | PrintSSEFailed string
  | PrintCancelSent string
  | PrintRemoved string

record Broadcaster =
  clients :: "string \<rightharpoonup> ClientInfo"
  sse_store :: "ref \<Rightarrow> SSEEvent chan"
  cancel_store :: "ref \<Rightarrow> bool chan"
  next_ref :: ref
  stdout :: "printed list"

text \<open>The error values built with \<^verbatim>\<open>fmt.Errorf\<close>, one constructor per message.\<close>

datatype error =
    ErrClientNotFound string
  | ErrClientNotFoundForCancellation string
  | ErrAlreadyCancelled string
  | ErrSSESendFailed string
  | ErrCancelSendFailed string

definition NewBroadcaster :: Broadcaster where
  "NewBroadcaster =
     \<lparr>clients = Map.empty, sse_store = (\<lambda>_. make_chan 0),
      cancel_store = (\<lambda>_. make_chan 0), next_ref = 0, stdout = []\<rparr>"

text \<open>
  \<^verbatim>\<open>NewClient\<close>; the argument \<open>clientID\<close> is the value of \<^verbatim>\<open>uuid.New().String()\<close>.
  The two \<^verbatim>\<open>make\<close> calls allocate the next free address of each store.
\<close>

definition NewClient :: "string \<Rightarrow> Broadcaster \<Rightarrow> (string \<times> ref \<times> ref) \<times> Broadcaster" where
  "NewClient clientID b =
     (let r = next_ref b;
          clientInfo = \<lparr>sseChannel = r, cancelChannel = r, isCancelled = False\<rparr>
      in ((clientID, sseChannel clientInfo, cancelChannel clientInfo),
          b\<lparr>clients := (clients b)(clientID \<mapsto> clientInfo),
            sse_store := (sse_store b)(r := make_chan 32),
            cancel_store := (cancel_store b)(r := make_chan 1),
            next_ref := Suc r,
            stdout := stdout b @ [PrintRegistered clientID]\<rparr>))"

definition Broadcast :: "string \<Rightarrow> SSEEvent \<Rightarrow> Broadcaster \<Rightarrow> panic + (error option \<times> Broadcaster)" where
  "Broadcast clientID event b =
     (case clients b clientID of
        None \<Rightarrow> Inr (Some (ErrClientNotFound clientID), b)
      | Some clientInfo \<Rightarrow>
          if isCancelled clientInfo then Inr (None, b)
          else (case try_send event (sse_store b (sseChannel clientInfo)) of
                  SendOk ch \<Rightarrow>
                    Inr (None, b\<lparr>sse_store := (sse_store b)(sseChannel clientInfo := ch)\<rparr>)
                | SendWouldBlock \<Rightarrow>
                    Inr (Some (ErrSSESendFailed clientID),
                         b\<lparr>stdout := stdout b @ [PrintSSEFailed clientID]\<rparr>)
                | SendPanics \<Rightarrow> Inl SendOnClosedChannel))"

definition CancelImport :: "string \<Rightarrow> Broadcaster \<Rightarrow> panic + (error option \<times> Broadcaster)" where
  "CancelImport clientID b =
     (case clients b clientID of
        None \<Rightarrow> Inr (Some (ErrClientNotFoundForCancellation clientID), b)
      | Some clientInfo \<Rightarrow>
          if isCancelled clientInfo then Inr (Some (ErrAlreadyCancelled clientID), b)
          else
            (let b1 = b\<lparr>clients := (clients b)(clientID \<mapsto> clientInfo\<lparr>isCancelled := True\<rparr>)\<rparr>
             in case try_send True (cancel_store b1 (cancelChannel clientInfo)) of
                  SendOk ch \<Rightarrow>
                    Inr (None,
                         b1\<lparr>cancel_store := (cancel_store b1)(cancelChannel clientInfo := ch),
                            stdout := stdout b1 @ [PrintCancelSent clientID]\<rparr>)
                | SendWouldBlock \<Rightarrow> Inr (Some (ErrCancelSendFailed clientID), b1)
                | SendPanics \<Rightarrow> Inl SendOnClosedChannel))"

definition RemoveClient :: "string \<Rightarrow> Broadcaster \<Rightarrow> panic + Broadcaster" where
  "RemoveClient clientID b =
     (case clients b clientID of
        None \<Rightarrow> Inr b
      | Some clientInfo \<Rightarrow>
          (case close_chan (sse_store b (sseChannel clientInfo)) of
             Inl p \<Rightarrow> Inl p
           | Inr sse \<Rightarrow>
               (case close_chan (cancel_store b (cancelChannel clientInfo)) of
                  Inl p \<Rightarrow> Inl p
                | Inr cancel \<Rightarrow>
                    Inr (b\<lparr>sse_store := (sse_store b)(sseChannel clientInfo := sse),
                           cancel_store := (cancel_store b)(cancelChannel clientInfo := cancel),
                           clients := (clients b)(clientID := None),
                           stdout := stdout b @ [PrintRemoved clientID]\<rparr>))))"

definition GetClientSSEChannel :: "string \<Rightarrow> Broadcaster \<Rightarrow> ref option" where
  "GetClientSSEChannel clientID b =
     (case clients b clientID of Some client \<Rightarrow> Some (sseChannel client) | None \<Rightarrow> None)"

text \<open>
  The holders of the receive-only channels that \<^verbatim>\<open>NewClient\<close> returned can only
  receive from them: a receive takes the oldest buffered value, if there is one.
\<close>

definition receive :: "'a chan \<Rightarrow> 'a chan" where
  "receive ch = (case try_recv ch of RecvOk v ch' \<Rightarrow> ch' | RecvClosed \<Rightarrow> ch | RecvWouldBlock \<Rightarrow> ch)"

text \<open>
  The calls a program can make on a registry, and the receives of the channel holders;
  \<open>exec\<close> runs one of them and keeps the state, \<open>run_ops\<close> a sequence of them.
\<close>

datatype op =
    OpNewClient string
  | OpBroadcast string SSEEvent
  | OpCancelImport string
  | OpRemoveClient string
  | OpReceiveSSE ref
  | OpReceiveCancel ref

fun exec :: "op \<Rightarrow> Broadcaster \<Rightarrow> panic + Broadcaster" where
  "exec (OpNewClient clientID) b = Inr (snd (NewClient clientID b))"
| "exec (OpBroadcast clientID event) b = map_sum id snd (Broadcast clientID event b)"
| "exec (OpCancelImport clientID) b = map_sum id snd (CancelImport clientID b)"
| "exec (OpRemoveClient clientID) b = RemoveClient clientID b"
| "exec (OpReceiveSSE r) b = Inr (b\<lparr>sse_store := (sse_store b)(r := receive (sse_store b r))\<rparr>)"
| "exec (OpReceiveCancel r) b =
     Inr (b\<lparr>cancel_store := (cancel_store b)(r := receive (cancel_store b r))\<rparr>)"

fun run_ops :: "op list \<Rightarrow> Broadcaster \<Rightarrow> panic + Broadcaster" where
  "run_ops [] b = Inr b"
| "run_ops (x # xs) b = (case exec x b of Inl p \<Rightarrow> Inl p | Inr b' \<Rightarrow> run_ops xs b')"

text \<open>The registries a program can build: from \<^verbatim>\<open>NewBroadcaster()\<close> by calls that return.\<close>

inductive reachable :: "Broadcaster \<Rightarrow> bool" where
  reachable_init: "reachable NewBroadcaster"
| reachable_step: "reachable b \<Longrightarrow> exec x b = Inr b' \<Longrightarrow> reachable b'"

text \<open>
  The invariant of the reachable registries: the channels of a registered session are
  allocated, open and of the capacities \<^verbatim>\<open>NewClient\<close> gave them, a session that is not
  cancelled has an empty cancel channel, and two sessions share no channel.
\<close>

definition session_ok :: "Broadcaster \<Rightarrow> ClientInfo \<Rightarrow> bool" where
  "session_ok b ci \<longleftrightarrow>
     sseChannel ci < next_ref b \<and> cancelChannel ci < next_ref b \<and>
     \<not> is_closed (sse_store b (sseChannel ci)) \<and> cap (sse_store b (sseChannel ci)) = 32 \<and>
     \<not> is_closed (cancel_store b (cancelChannel ci)) \<and> cap (cancel_store b (cancelChannel ci)) = 1 \<and>
     (\<not> isCancelled ci \<longrightarrow> buf (cancel_store b (cancelChannel ci)) = [])"

definition registry_inv :: "Broadcaster \<Rightarrow> bool" where
  "registry_inv b \<longleftrightarrow>
     (\<forall>k ci. clients b k = Some ci \<longrightarrow> session_ok b ci) \<and>
     (\<forall>k k' ci ci'. clients b k = Some ci \<longrightarrow> clients b k' = Some ci' \<longrightarrow> k \<noteq> k' \<longrightarrow>
        sseChannel ci \<noteq> sseChannel ci' \<and> cancelChannel ci \<noteq> cancelChannel ci')"

section \<open>The embedding calculator service (package background)\<close>

record DefinitionToEmbed =
  ID :: int
  Text :: string

record EmbeddingResult =
  DefinitionID :: int
  Embedding :: "real list"
  Error :: "string option"

definition numProcessorWorkers :: nat where
  "numProcessorWorkers = 3"

text \<open>
  The lines written with \<^verbatim>\<open>log.Printf\<close> that carry a definition's identifier: the
  fetcher's two lines, the worker's receipt and the updater's two lines.
\<close>

datatype log_line =
    FetcherSent int
  | FetcherSkipped int
  | WorkerReceived nat int
  | UpdaterError int string
  | UpdaterUpdate int "real list"

text \<open>
  The simulated discovery of \<^verbatim>\<open>fetchAndSendDefinitions\<close>. Its arguments are what the
  clock returns: \<open>sec1\<close> and \<open>sec2\<close> for the two calls of \<^verbatim>\<open>time.Now().Second()\<close>,
  \<open>kitchen\<close> for \<^verbatim>\<open>time.Now().Format(time.Kitchen)\<close>.
\<close>

definition dummyDefinitions :: "nat \<Rightarrow> string \<Rightarrow> nat \<Rightarrow> DefinitionToEmbed list" where
  "dummyDefinitions sec1 kitchen sec2 =
     [\<lparr>ID = int sec1 * 100 + 1, Text = ''Definition fetched at '' @ kitchen\<rparr>,
      \<lparr>ID = int sec2 * 100 + 2, Text = ''Another sample definition text for embedding.''\<rparr>]"

text \<open>
  One pass of the fetcher's loop body: the \<^verbatim>\<open>select\<close> with the send case and the
  \<^verbatim>\<open>default\<close> case, and the line each of them logs.
\<close>

definition send_or_skip ::
  "DefinitionToEmbed \<Rightarrow> DefinitionToEmbed chan \<Rightarrow> log_line list \<Rightarrow>
     panic + (DefinitionToEmbed chan \<times> log_line list)" where
  "send_or_skip d ch lg =
     (case try_send d ch of
        SendOk ch' \<Rightarrow> Inr (ch', lg @ [FetcherSent (ID d)])
      | SendWouldBlock \<Rightarrow> Inr (ch, lg @ [FetcherSkipped (ID d)])
      | SendPanics \<Rightarrow> Inl SendOnClosedChannel)"

text \<open>The loop \<^verbatim>\<open>for _, def := range dummyDefinitions\<close>, run without interruption.\<close>

fun send_each ::
  "DefinitionToEmbed list \<Rightarrow> DefinitionToEmbed chan \<Rightarrow> log_line list \<Rightarrow>
     panic + (DefinitionToEmbed chan \<times> log_line list)" where
  "send_each [] ch lg = Inr (ch, lg)"
| "send_each (d # ds) ch lg =
     (case send_or_skip d ch lg of Inl p \<Rightarrow> Inl p | Inr (ch', lg') \<Rightarrow> send_each ds ch' lg')"

text \<open>
  \<^verbatim>\<open>fetchAndSendDefinitions\<close> has no result value: a call ends with the channel and the
  log changed, or in a panic.
\<close>

definition fetchAndSendDefinitions ::
  "nat \<Rightarrow> string \<Rightarrow> nat \<Rightarrow> DefinitionToEmbed chan \<Rightarrow> log_line list \<Rightarrow>
     panic + (DefinitionToEmbed chan \<times> log_line list)" where
  "fetchAndSendDefinitions sec1 kitchen sec2 defsToProcessChan lg =
     send_each (dummyDefinitions sec1 kitchen sec2) defsToProcessChan lg"

text \<open>
  The worker's dummy embedding, \<^verbatim>\<open>float32(def.ID) + float32(j)*0.1 + float32(workerID)*0.01\<close>
  for \<open>j = 0, 1, 2\<close>, written over the reals: the rounding of \<^verbatim>\<open>float32\<close> is not
  modelled.
\<close>

definition dummy_embedding :: "int \<Rightarrow> nat \<Rightarrow> real list" where
  "dummy_embedding defID workerID =
     map (\<lambda>j. real_of_int defID + real j * (1 / 10) + real workerID * (1 / 100)) [0..<3]"

text \<open>
  The goroutines of \<^verbatim>\<open>StartEmbeddingCalculatorService\<close> and where each of them stands.
  The orchestrator starts the workers (the loop variable is kept), the updater and the
  goroutine that closes \<^verbatim>\<open>resultsChan\<close>, then waits in its \<^verbatim>\<open>select\<close>; on a tick it is
  inside \<^verbatim>\<open>fetchAndSendDefinitions\<close> with the definitions still to send; on the stop
  signal it closes \<^verbatim>\<open>defsToProcessChan\<close>, waits for \<^verbatim>\<open>mainWg\<close> and returns.
\<close>

datatype orchestrator_pc =
    OSpawnWorkers nat
  | OSpawnUpdater
  | OSpawnCloser
  | OSelect
  | OFetch "DefinitionToEmbed list"
  | OStopping
  | OWaitMain
  | OReturned

text \<open>
  A worker is at the head of \<^verbatim>\<open>for def := range defsToProcessChan\<close>, or holds a result
  at \<^verbatim>\<open>resultsChan <- result\<close>, or has left the loop with the deferred
  \<^verbatim>\<open>processorsWg.Done()\<close> still to run, or has exited.
\<close>

datatype worker_pc = WReceive | WSend EmbeddingResult | WReturn | WExited

datatype updater_pc = UNotStarted | UReceive | UReturn | UExited

datatype closer_pc = CNotStarted | CWait | CClose | CExited

record service =
  defsToProcessChan :: "DefinitionToEmbed chan"
  resultsChan :: "EmbeddingResult chan"
  stopChan_closed :: bool
  mainWg :: nat
  processorsWg :: nat
  orchestrator :: orchestrator_pc
  workers :: "worker_pc list"
  updater :: updater_pc
  closer :: closer_pc
  logged :: "log_line list"
  panicked :: "panic option"

text \<open>
  The state in which \<^verbatim>\<open>StartEmbeddingCalculatorService\<close> leaves the service: two channels
  of capacity 10, both wait groups at zero, and the orchestrator goroutine launched.
\<close>

definition StartEmbeddingCalculatorService :: service where
  "StartEmbeddingCalculatorService =
     \<lparr>defsToProcessChan = make_chan 10, resultsChan = make_chan 10, stopChan_closed = False,
      mainWg = 0, processorsWg = 0, orchestrator = OSpawnWorkers 0, workers = [],
      updater = UNotStarted, closer = CNotStarted, logged = [], panicked = None\<rparr>"

text \<open>\<^verbatim>\<open>WaitGroup.Done\<close>: a counter that would become negative panics.\<close>

definition wg_done :: "nat \<Rightarrow> panic + nat" where
  "wg_done n = (if n = 0 then Inl NegativeWaitGroupCounter else Inr (n - 1))"

definition crash :: "panic \<Rightarrow> service \<Rightarrow> service" where
  "crash p s = s\<lparr>panicked := Some p\<rparr>"

text \<open>
  The atomic steps of the goroutines. \<open>OrchTick\<close> is the ticker case of the
  \<^verbatim>\<open>select\<close> (with the clock values the fetcher will read), \<open>OrchStop\<close> the stop case;
  \<open>CloseStopChan\<close> is \<^verbatim>\<open>close(embeddingStopChan)\<close> in \<^verbatim>\<open>main\<close>. The number of a worker
  step is the worker's \<^verbatim>\<open>workerID\<close>.
\<close>

datatype action =
    OrchSpawnWorker
  | OrchSpawnUpdater
  | OrchSpawnCloser
  | OrchTick nat string nat
  | OrchFetchSend
  | CloseStopChan
  | OrchStop
  | OrchCloseDefs
  | OrchWaitReturn
  | WorkerReceive nat
  | WorkerSend nat
  | WorkerDone nat
  | UpdaterReceive
  | UpdaterDone
  | CloserWait
  | CloserClose

text \<open>
  \<open>go_step a s\<close> is the state after the step, or \<open>None\<close> when the goroutine is not at
  that statement or is blocked there (a receive from an empty open channel, a send to a
  full one, a \<^verbatim>\<open>Wait\<close> on a positive counter).
\<close>

fun go_step :: "action \<Rightarrow> service \<Rightarrow> service option" where
  "go_step OrchSpawnWorker s =
     (case orchestrator s of
        OSpawnWorkers i \<Rightarrow>
          if i < numProcessorWorkers
          then Some (s\<lparr>processorsWg := processorsWg s + 1, workers := workers s @ [WReceive],
                       orchestrator := OSpawnWorkers (i + 1)\<rparr>)
          else Some (s\<lparr>orchestrator := OSpawnUpdater\<rparr>)
      | _ \<Rightarrow> None)"
| "go_step OrchSpawnUpdater s =
     (if orchestrator s = OSpawnUpdater
      then Some (s\<lparr>mainWg := mainWg s + 1, updater := UReceive, orchestrator := OSpawnCloser\<rparr>)
      else None)"
| "go_step OrchSpawnCloser s =
     (if orchestrator s = OSpawnCloser
      then Some (s\<lparr>closer := CWait, orchestrator := OSelect\<rparr>)
      else None)"
| "go_step (OrchTick sec1 kitchen sec2) s =
     (if orchestrator s = OSelect \<and> sec1 < 60 \<and> sec2 < 60
      then Some (s\<lparr>orchestrator := OFetch (dummyDefinitions sec1 kitchen sec2)\<rparr>)
      else None)"
| "go_step OrchFetchSend s =
     (case orchestrator s of
        OFetch [] \<Rightarrow> Some (s\<lparr>orchestrator := OSelect\<rparr>)
      | OFetch (d # ds) \<Rightarrow>
          (case send_or_skip d (defsToProcessChan s) (logged s) of
             Inr (ch, lg) \<Rightarrow>
               Some (s\<lparr>defsToProcessChan := ch, logged := lg, orchestrator := OFetch ds\<rparr>)
           | Inl p \<Rightarrow> Some (crash p s))
      | _ \<Rightarrow> None)"
| "go_step CloseStopChan s =
     (if stopChan_closed s then None else Some (s\<lparr>stopChan_closed := True\<rparr>))"
| "go_step OrchStop s =
     (if orchestrator s = OSelect \<and> stopChan_closed s
      then Some (s\<lparr>orchestrator := OStopping\<rparr>)
      else None)"
| "go_step OrchCloseDefs s =
     (if orchestrator s = OStopping
      then (case close_chan (defsToProcessChan s) of
              Inr ch \<Rightarrow> Some (s\<lparr>defsToProcessChan := ch, orchestrator := OWaitMain\<rparr>)
            | Inl p \<Rightarrow> Some (crash p s))
      else None)"
| "go_step OrchWaitReturn s =
     (if orchestrator s = OWaitMain \<and> mainWg s = 0
      then Some (s\<lparr>orchestrator := OReturned\<rparr>)
      else None)"
| "go_step (WorkerReceive w) s =
     (if w < length (workers s) \<and> workers s ! w = WReceive
      then (case try_recv (defsToProcessChan s) of
              RecvOk d ch \<Rightarrow>
                Some (s\<lparr>defsToProcessChan := ch,
                        logged := logged s @ [WorkerReceived w (ID d)],
                        workers := (workers s)[w := WSend
                          \<lparr>DefinitionID = ID d, Embedding = dummy_embedding (ID d) w,
                           Error = None\<rparr>]\<rparr>)
            | RecvClosed \<Rightarrow> Some (s\<lparr>workers := (workers s)[w := WReturn]\<rparr>)
            | RecvWouldBlock \<Rightarrow> None)
      else None)"
| "go_step (WorkerSend w) s =
     (if w < length (workers s)
      then (case workers s ! w of
              WSend result \<Rightarrow>
                (case try_send result (resultsChan s) of
                   SendOk ch \<Rightarrow> Some (s\<lparr>resultsChan := ch, workers := (workers s)[w := WReceive]\<rparr>)
                 | SendWouldBlock \<Rightarrow> None
                 | SendPanics \<Rightarrow> Some (crash SendOnClosedChannel s))
            | _ \<Rightarrow> None)
      else None)"
| "go_step (WorkerDone w) s =
     (if w < length (workers s) \<and> workers s ! w = WReturn
      then (case wg_done (processorsWg s) of
              Inr n \<Rightarrow> Some (s\<lparr>processorsWg := n, workers := (workers s)[w := WExited]\<rparr>)
            | Inl p \<Rightarrow> Some (crash p s))
      else None)"
| "go_step UpdaterReceive s =
     (if updater s = UReceive
      then (case try_recv (resultsChan s) of
              RecvOk result ch \<Rightarrow>
                Some (s\<lparr>resultsChan := ch,
                        logged := logged s @
                          [case Error result of
                             Some e \<Rightarrow> UpdaterError (DefinitionID result) e
                           | None \<Rightarrow> UpdaterUpdate (DefinitionID result) (Embedding result)]\<rparr>)
            | RecvClosed \<Rightarrow> Some (s\<lparr>updater := UReturn\<rparr>)
            | RecvWouldBlock \<Rightarrow> None)
      else None)"
| "go_step UpdaterDone s =
     (if updater s = UReturn
      then (case wg_done (mainWg s) of
              Inr n \<Rightarrow> Some (s\<lparr>mainWg := n, updater := UExited\<rparr>)
            | Inl p \<Rightarrow> Some (crash p s))
      else None)"
| "go_step CloserWait s =
     (if closer s = CWait \<and> processorsWg s = 0 then Some (s\<lparr>closer := CClose\<rparr>) else None)"
| "go_step CloserClose s =
     (if closer s = CClose
      then (case close_chan (resultsChan s) of
              Inr ch \<Rightarrow> Some (s\<lparr>resultsChan := ch, closer := CExited\<rparr>)
            | Inl p \<Rightarrow> Some (crash p s))
      else None)"

text \<open>A panic ends the program: no goroutine takes a step after it.\<close>

definition step :: "action \<Rightarrow> service \<Rightarrow> service option" where
  "step a s = (if panicked s = None then go_step a s else None)"

fun run_steps :: "action list \<Rightarrow> service \<Rightarrow> service option" where
  "run_steps [] s = Some s"
| "run_steps (a # as) s = (case step a s of None \<Rightarrow> None | Some s' \<Rightarrow> run_steps as s')"

inductive service_reachable :: "service \<Rightarrow> bool" where
  service_init: "service_reachable StartEmbeddingCalculatorService"
| service_step: "service_reachable s \<Longrightarrow> step a s = Some s' \<Longrightarrow> service_reachable s'"

text \<open>
  The identifiers in the log, in the order of the lines: sent by the fetcher,
  received by a worker, handled by the updater.
\<close>

fun sent_id :: "log_line \<Rightarrow> int list" where
  "sent_id (FetcherSent i) = [i]"
| "sent_id _ = []"

fun received_id :: "log_line \<Rightarrow> int list" where
  "received_id (WorkerReceived w i) = [i]"
| "received_id _ = []"

fun handled_id :: "log_line \<Rightarrow> int list" where
  "handled_id (UpdaterError i e) = [i]"
| "handled_id (UpdaterUpdate i v) = [i]"
| "handled_id _ = []"

definition sent_ids :: "log_line list \<Rightarrow> int list" where
  "sent_ids lg = concat (map sent_id lg)"

definition received_ids :: "log_line list \<Rightarrow> int list" where
  "received_ids lg = concat (map received_id lg)"

definition handled_ids :: "log_line list \<Rightarrow> int list" where
  "handled_ids lg = concat (map handled_id lg)"

text \<open>The identifier of the result a worker holds and has not sent yet.\<close>

fun in_flight :: "worker_pc \<Rightarrow> int list" where
  "in_flight (WSend result) = [DefinitionID result]"
| "in_flight _ = []"

text \<open>
  The invariant of the service. A worker has left its loop once it has seen
  \<^verbatim>\<open>defsToProcessChan\<close> closed and drained; the workers that have not exited are the ones
  \<^verbatim>\<open>processorsWg\<close> counts.
\<close>

definition left_loop :: "worker_pc \<Rightarrow> bool" where
  "left_loop w \<longleftrightarrow> w = WReturn \<or> w = WExited"

definition active_workers :: "worker_pc list \<Rightarrow> nat" where
  "active_workers ws = length (filter (\<lambda>w. w \<noteq> WExited) ws)"

definition spawning :: "orchestrator_pc \<Rightarrow> bool" where
  "spawning pc = (case pc of OSpawnWorkers i \<Rightarrow> True | OSpawnUpdater \<Rightarrow> True | OSpawnCloser \<Rightarrow> True | _ \<Rightarrow> False)"

definition service_inv :: "service \<Rightarrow> bool" where
  "service_inv s \<longleftrightarrow>
     panicked s = None \<and>
     cap (defsToProcessChan s) = 10 \<and> cap (resultsChan s) = 10 \<and>
     length (workers s) =
       (case orchestrator s of OSpawnWorkers i \<Rightarrow> i | _ \<Rightarrow> numProcessorWorkers) \<and>
     length (workers s) \<le> numProcessorWorkers \<and>
     processorsWg s = active_workers (workers s) \<and>
     (is_closed (defsToProcessChan s) \<longleftrightarrow> orchestrator s = OWaitMain \<or> orchestrator s = OReturned) \<and>
     ((\<exists>w \<in> set (workers s). left_loop w) \<longrightarrow>
        is_closed (defsToProcessChan s) \<and> buf (defsToProcessChan s) = []) \<and>
     (closer s = CNotStarted \<longleftrightarrow> spawning (orchestrator s)) \<and>
     (closer s = CClose \<or> closer s = CExited \<longrightarrow> processorsWg s = 0) \<and>
     (is_closed (resultsChan s) \<longleftrightarrow> closer s = CExited) \<and>
     (updater s = UNotStarted \<longleftrightarrow>
        (case orchestrator s of OSpawnWorkers i \<Rightarrow> True | OSpawnUpdater \<Rightarrow> True | _ \<Rightarrow> False)) \<and>
     mainWg s = (if updater s = UReceive \<or> updater s = UReturn then 1 else 0) \<and>
     (updater s = UReturn \<or> updater s = UExited \<longrightarrow>
        is_closed (resultsChan s) \<and> buf (resultsChan s) = []) \<and>
     (orchestrator s = OReturned \<longrightarrow> updater s = UExited)"

text \<open>
  Nothing is lost and nothing is made twice: what the fetcher sent is in the input
  channel or was received by a worker, and what the workers received is held by a
  worker, in the output channel or was handled by the updater.
\<close>

definition in_flight_ids :: "worker_pc list \<Rightarrow> int list" where
  "in_flight_ids ws = concat (map in_flight ws)"

definition conservation :: "service \<Rightarrow> bool" where
  "conservation s \<longleftrightarrow>
     mset (sent_ids (logged s)) =
       mset (map ID (buf (defsToProcessChan s))) + mset (received_ids (logged s)) \<and>
     mset (received_ids (logged s)) =
       mset (in_flight_ids (workers s)) + mset (map DefinitionID (buf (resultsChan s))) +
       mset (handled_ids (logged s))"

text \<open>
  A bound on the steps the shutdown still takes once the orchestrator has left its
  \<^verbatim>\<open>select\<close> by the stop case: each queued definition costs a receive, a send and the
  updater's receive, and every goroutine has its last statements to run.
\<close>

fun worker_steps :: "worker_pc \<Rightarrow> nat" where
  "worker_steps WReceive = 2"
| "worker_steps (WSend result) = 4"
| "worker_steps WReturn = 1"
| "worker_steps WExited = 0"

fun updater_steps :: "updater_pc \<Rightarrow> nat" where
  "updater_steps UReceive = 2"
| "updater_steps UReturn = 1"
| "updater_steps _ = 0"

fun closer_steps :: "closer_pc \<Rightarrow> nat" where
  "closer_steps CWait = 2"
| "closer_steps CClose = 1"
| "closer_steps _ = 0"

fun orchestrator_steps :: "orchestrator_pc \<Rightarrow> nat" where
  "orchestrator_steps OStopping = 2"
| "orchestrator_steps OWaitMain = 1"
| "orchestrator_steps _ = 0"

definition shutdown_steps :: "service \<Rightarrow> nat" where
  "shutdown_steps s =
     3 * length (buf (defsToProcessChan s)) + sum_list (map worker_steps (workers s)) +
     length (buf (resultsChan s)) + updater_steps (updater s) + closer_steps (closer s) +
     orchestrator_steps (orchestrator s)"

text \<open>The orchestrator takes the stop case only after the stop channel was closed.\<close>

definition stop_inv :: "service \<Rightarrow> bool" where
  "stop_inv s \<longleftrightarrow>
     (orchestrator s = OStopping \<or> orchestrator s = OWaitMain \<or> orchestrator s = OReturned \<longrightarrow>
        stopChan_closed s)"

definition stopping :: "service \<Rightarrow> bool" where
  "stopping s \<longleftrightarrow> orchestrator s = OStopping \<or> orchestrator s = OWaitMain"

section \<open>Example registries and runs\<close>

text \<open>A registry with one session, and calls made on it.\<close>

definition demo_client :: string where
  "demo_client = ''client-1''"

definition demo_registry :: Broadcaster where
  "demo_registry = snd (NewClient demo_client NewBroadcaster)"

definition demo_ops :: "op list" where
  "demo_ops = [OpBroadcast demo_client \<lparr>Data = ''hello''\<rparr>, OpCancelImport demo_client, OpReceiveCancel 0]"

definition later_ops :: "op list" where
  "later_ops = [OpNewClient ''client-2'', OpBroadcast ''client-2'' \<lparr>Data = ''hello''\<rparr>,
     OpRemoveClient demo_client]"

text \<open>The registry after the session has been cancelled.\<close>

definition cancelled_registry :: Broadcaster where
  "cancelled_registry =
     \<lparr>clients = [demo_client \<mapsto> \<lparr>sseChannel = 0, cancelChannel = 0, isCancelled = True\<rparr>],
      sse_store = (\<lambda>_. make_chan 0)(0 := make_chan 32),
      cancel_store = (\<lambda>_. make_chan 0)(0 := \<lparr>buf = [True], cap = 1, is_closed = False\<rparr>),
      next_ref = 1,
      stdout = [PrintRegistered demo_client, PrintCancelSent demo_client]\<rparr>"

text \<open>The registry after 32 events have been broadcast to a session that reads none.\<close>

definition saturating_ops :: "op list" where
  "saturating_ops = OpNewClient demo_client # replicate 32 (OpBroadcast demo_client \<lparr>Data = ''hello''\<rparr>)"

definition saturated_registry :: Broadcaster where
  "saturated_registry =
     \<lparr>clients = [demo_client \<mapsto> \<lparr>sseChannel = 0, cancelChannel = 0, isCancelled = False\<rparr>],
      sse_store = (\<lambda>_. make_chan 0)
        (0 := \<lparr>buf = replicate 32 \<lparr>Data = ''hello''\<rparr>, cap = 32, is_closed = False\<rparr>),
      cancel_store = (\<lambda>_. make_chan 0)(0 := make_chan 1),
      next_ref = 1,
      stdout = [PrintRegistered demo_client]\<rparr>"

text \<open>
  A complete run of the service: five ticks a quarter of a minute apart, the first and
  the last at second 7 of two consecutive minutes; two workers handle each tick's
  definitions; then the stop signal and the shutdown.
\<close>

definition demo_run :: "action list" where
  "demo_run =
     [OrchSpawnWorker, OrchSpawnWorker, OrchSpawnWorker, OrchSpawnWorker,
      OrchSpawnUpdater, OrchSpawnCloser,
      OrchTick 7 ''3:04PM'' 7, OrchFetchSend, OrchFetchSend, OrchFetchSend,
      WorkerReceive 0, WorkerReceive 1, WorkerSend 0, WorkerSend 1,
      UpdaterReceive, UpdaterReceive,
      OrchTick 22 ''3:04PM'' 22, OrchFetchSend, OrchFetchSend, OrchFetchSend,
      WorkerReceive 0, WorkerReceive 1, WorkerSend 0, WorkerSend 1,
      UpdaterReceive, UpdaterReceive,
      OrchTick 37 ''3:04PM'' 37, OrchFetchSend, OrchFetchSend, OrchFetchSend,
      WorkerReceive 0, WorkerReceive 1, WorkerSend 0, WorkerSend 1,
      UpdaterReceive, UpdaterReceive,
      OrchTick 52 ''3:04PM'' 52, OrchFetchSend, OrchFetchSend, OrchFetchSend,
      WorkerReceive 0, WorkerReceive 1, WorkerSend 0, WorkerSend 1,
      UpdaterReceive, UpdaterReceive,
      OrchTick 7 ''3:05PM'' 7, OrchFetchSend, OrchFetchSend, OrchFetchSend,
      WorkerReceive 0, WorkerReceive 1, WorkerSend 0, WorkerSend 1,
      UpdaterReceive, UpdaterReceive,
      CloseStopChan, OrchStop, OrchCloseDefs,
      WorkerReceive 0, WorkerReceive 1, WorkerReceive 2,
      WorkerDone 0, WorkerDone 1, WorkerDone 2,
      CloserWait, CloserClose, UpdaterReceive, UpdaterDone, OrchWaitReturn]"

definition demo_log :: "log_line list" where
  "demo_log =
     [FetcherSent 701, FetcherSent 702, WorkerReceived 0 701, WorkerReceived 1 702,
      UpdaterUpdate 701 (dummy_embedding 701 0), UpdaterUpdate 702 (dummy_embedding 702 1),
      FetcherSent 2201, FetcherSent 2202, WorkerReceived 0 2201, WorkerReceived 1 2202,
      UpdaterUpdate 2201 (dummy_embedding 2201 0), UpdaterUpdate 2202 (dummy_embedding 2202 1),
      FetcherSent 3701, FetcherSent 3702, WorkerReceived 0 3701, WorkerReceived 1 3702,
      UpdaterUpdate 3701 (dummy_embedding 3701 0), UpdaterUpdate 3702 (dummy_embedding 3702 1),
      FetcherSent 5201, FetcherSent 5202, WorkerReceived 0 5201, WorkerReceived 1 5202,
      UpdaterUpdate 5201 (dummy_embedding 5201 0), UpdaterUpdate 5202 (dummy_embedding 5202 1),
      FetcherSent 701, FetcherSent 702, WorkerReceived 0 701, WorkerReceived 1 702,
      UpdaterUpdate 701 (dummy_embedding 701 0), UpdaterUpdate 702 (dummy_embedding 702 1)]"

definition demo_final :: service where
  "demo_final =
     \<lparr>defsToProcessChan = \<lparr>buf = [], cap = 10, is_closed = True\<rparr>,
      resultsChan = \<lparr>buf = [], cap = 10, is_closed = True\<rparr>,
      stopChan_closed = True, mainWg = 0, processorsWg = 0,
      orchestrator = OReturned, workers = [WExited, WExited, WExited],
      updater = UExited, closer = CExited, logged = demo_log, panicked = None\<rparr>"

text \<open>The service once the orchestrator has started every goroutine.\<close>

definition started_run :: "action list" where
  "started_run =
     [OrchSpawnWorker, OrchSpawnWorker, OrchSpawnWorker, OrchSpawnWorker,
      OrchSpawnUpdater, OrchSpawnCloser]"

definition started_state :: service where
  "started_state =
     \<lparr>defsToProcessChan = make_chan 10, resultsChan = make_chan 10, stopChan_closed = False,
      mainWg = 1, processorsWg = 3, orchestrator = OSelect,
      workers = [WReceive, WReceive, WReceive],
      updater = UReceive, closer = CWait, logged = [], panicked = None\<rparr>"

text \<open>
  A run in which no worker is scheduled while five ticks fill the input channel; the
  sixth tick finds it full.
\<close>

definition backlog_run :: "action list" where
  "backlog_run = started_run @
     [OrchTick 7 ''3:04PM'' 7, OrchFetchSend, OrchFetchSend, OrchFetchSend,
      OrchTick 22 ''3:04PM'' 22, OrchFetchSend, OrchFetchSend, OrchFetchSend,
      OrchTick 37 ''3:04PM'' 37, OrchFetchSend, OrchFetchSend, OrchFetchSend,
      OrchTick 52 ''3:04PM'' 52, OrchFetchSend, OrchFetchSend, OrchFetchSend,
      OrchTick 7 ''3:05PM'' 7, OrchFetchSend, OrchFetchSend, OrchFetchSend,
      OrchTick 22 ''3:05PM'' 22, OrchFetchSend]"

definition backlog :: "DefinitionToEmbed list" where
  "backlog = dummyDefinitions 7 ''3:04PM'' 7 @ dummyDefinitions 22 ''3:04PM'' 22 @
     dummyDefinitions 37 ''3:04PM'' 37 @ dummyDefinitions 52 ''3:04PM'' 52 @
     dummyDefinitions 7 ''3:05PM'' 7"

definition backlog_state :: service where
  "backlog_state =
     \<lparr>defsToProcessChan = \<lparr>buf = backlog, cap = 10, is_closed = False\<rparr>,
      resultsChan = make_chan 10, stopChan_closed = False,
      mainWg = 1, processorsWg = 3,
      orchestrator = OFetch [\<lparr>ID = 2202, Text = ''Another sample definition text for embedding.''\<rparr>],
      workers = [WReceive, WReceive, WReceive],
      updater = UReceive, closer = CWait,
      logged = [FetcherSent 701, FetcherSent 702, FetcherSent 2201, FetcherSent 2202,
        FetcherSent 3701, FetcherSent 3702, FetcherSent 5201, FetcherSent 5202,
        FetcherSent 701, FetcherSent 702, FetcherSkipped 2201],
      panicked = None\<rparr>"

text \<open>The service just after the orchestrator has taken the stop case, with work pending.\<close>

definition stopping_run :: "action list" where
  "stopping_run = started_run @
     [OrchTick 7 ''3:04PM'' 7, OrchFetchSend, OrchFetchSend, OrchFetchSend,
      WorkerReceive 0, CloseStopChan, OrchStop]"

definition stopping_state :: service where
  "stopping_state =
     \<lparr>defsToProcessChan = \<lparr>buf = [\<lparr>ID = 702, Text = ''Another sample definition text for embedding.''\<rparr>],
        cap = 10, is_closed = False\<rparr>,
      resultsChan = make_chan 10, stopChan_closed = True,
      mainWg = 1, processorsWg = 3, orchestrator = OStopping,
      workers = [WSend \<lparr>DefinitionID = 701, Embedding = dummy_embedding 701 0, Error = None\<rparr>,
        WReceive, WReceive],
      updater = UReceive, closer = CWait,
      logged = [FetcherSent 701, FetcherSent 702, WorkerReceived 0 701],
      panicked = None\<rparr>"

section \<open>Properties of the client registry\<close>

lemma receive_simps [simp]:
  "is_closed (receive ch) = is_closed ch" "cap (receive ch) = cap ch"
  "buf ch = [] \<Longrightarrow> buf (receive ch) = []"
  by (auto simp: receive_def try_recv_def split: list.splits)

lemma registry_invD1: "registry_inv b \<Longrightarrow> clients b k = Some ci \<Longrightarrow> session_ok b ci"
  unfolding registry_inv_def by blast

lemma registry_invD2:
  "registry_inv b \<Longrightarrow> clients b k = Some ci \<Longrightarrow> clients b k' = Some ci' \<Longrightarrow> k \<noteq> k' \<Longrightarrow>
     sseChannel ci \<noteq> sseChannel ci' \<and> cancelChannel ci \<noteq> cancelChannel ci'"
  unfolding registry_inv_def by blast

lemma registry_invI:
  "(\<And>k ci. clients b k = Some ci \<Longrightarrow> session_ok b ci) \<Longrightarrow>
   (\<And>k k' ci ci'. clients b k = Some ci \<Longrightarrow> clients b k' = Some ci' \<Longrightarrow> k \<noteq> k' \<Longrightarrow>
       sseChannel ci \<noteq> sseChannel ci' \<and> cancelChannel ci \<noteq> cancelChannel ci') \<Longrightarrow>
   registry_inv b"
  unfolding registry_inv_def by blast

lemma registry_inv_NewClient:
  assumes "registry_inv b" shows "registry_inv (snd (NewClient k b))"
proof (rule registry_invI)
  fix k' ci assume "clients (snd (NewClient k b)) k' = Some ci"
  then show "session_ok (snd (NewClient k b)) ci"
    using registry_invD1 [OF assms, of k' ci]
    by (auto simp: NewClient_def Let_def session_ok_def make_chan_def split: if_splits)
next
  fix k1 k2 ci ci'
  assume "clients (snd (NewClient k b)) k1 = Some ci" "clients (snd (NewClient k b)) k2 = Some ci'" "k1 \<noteq> k2"
  then show "sseChannel ci \<noteq> sseChannel ci' \<and> cancelChannel ci \<noteq> cancelChannel ci'"
    using registry_invD1 [OF assms, of k1 ci] registry_invD1 [OF assms, of k2 ci']
      registry_invD2 [OF assms, of k1 ci k2 ci']
    by (auto simp: NewClient_def Let_def session_ok_def split: if_splits)
qed

lemma registry_inv_Broadcast:
  assumes "registry_inv b" "Broadcast k e b = Inr (r, b')" shows "registry_inv b'"
proof (cases "clients b k")
  case None
  with assms show ?thesis by (simp add: Broadcast_def)
next
  case (Some c)
  have same: "clients b' = clients b" "cancel_store b' = cancel_store b" "next_ref b' = next_ref b"
    using assms(2) Some by (auto simp: Broadcast_def split: if_splits send_attempt.splits)
  have sse: "is_closed (sse_store b' x) = is_closed (sse_store b x) \<and> cap (sse_store b' x) = cap (sse_store b x)" for x
    using assms(2) Some by (auto simp: Broadcast_def try_send_def split: if_splits)
  show ?thesis
  proof (rule registry_invI)
    fix k' ci assume "clients b' k' = Some ci"
    then show "session_ok b' ci"
      using registry_invD1 [OF assms(1), of k' ci] by (simp add: session_ok_def same sse)
  next
    fix k1 k2 ci ci'
    assume "clients b' k1 = Some ci" "clients b' k2 = Some ci'" "k1 \<noteq> k2"
    then show "sseChannel ci \<noteq> sseChannel ci' \<and> cancelChannel ci \<noteq> cancelChannel ci'"
      using registry_invD2 [OF assms(1), of k1 ci k2 ci'] by (simp add: same)
  qed
qed

lemma registry_inv_CancelImport:
  assumes "registry_inv b" "CancelImport k b = Inr (r, b')" shows "registry_inv b'"
proof (cases "clients b k")
  case None
  with assms show ?thesis by (simp add: CancelImport_def)
next
  case (Some c)
  show ?thesis
  proof (cases "isCancelled c")
    case True
    with assms Some show ?thesis by (simp add: CancelImport_def)
  next
    case False
    have cl: "clients b' = (clients b)(k \<mapsto> c\<lparr>isCancelled := True\<rparr>)" and nr: "next_ref b' = next_ref b"
      and ss: "sse_store b' = sse_store b"
      using assms(2) Some False by (auto simp: CancelImport_def Let_def split: send_attempt.splits)
    have cs: "is_closed (cancel_store b' x) = is_closed (cancel_store b x) \<and> cap (cancel_store b' x) = cap (cancel_store b x)
        \<and> (x \<noteq> cancelChannel c \<longrightarrow> cancel_store b' x = cancel_store b x)" for x
      using assms(2) Some False by (auto simp: CancelImport_def Let_def try_send_def split: if_splits)
    show ?thesis
    proof (rule registry_invI)
      fix k' ci assume "clients b' k' = Some ci"
      then show "session_ok b' ci"
        using registry_invD1 [OF assms(1), of k' ci] registry_invD1 [OF assms(1) Some]
          registry_invD2 [OF assms(1) _ Some, of k' ci]
        by (auto simp: session_ok_def cl nr ss cs split: if_splits)
    next
      fix k1 k2 ci ci'
      assume "clients b' k1 = Some ci" "clients b' k2 = Some ci'" "k1 \<noteq> k2"
      then show "sseChannel ci \<noteq> sseChannel ci' \<and> cancelChannel ci \<noteq> cancelChannel ci'"
        using registry_invD2 [OF assms(1), of k1 ci k2 ci'] registry_invD2 [OF assms(1) Some, of k2 ci']
          registry_invD2 [OF assms(1) _ Some, of k1 ci]
        by (auto simp: cl split: if_splits)
    qed
  qed
qed

lemma registry_inv_RemoveClient:
  assumes "registry_inv b" "RemoveClient k b = Inr b'" shows "registry_inv b'"
proof (cases "clients b k")
  case None
  with assms show ?thesis by (simp add: RemoveClient_def)
next
  case (Some c)
  have cl: "clients b' = (clients b)(k := None)" and nr: "next_ref b' = next_ref b"
    and ss: "x \<noteq> sseChannel c \<Longrightarrow> sse_store b' x = sse_store b x"
    and cs: "y \<noteq> cancelChannel c \<Longrightarrow> cancel_store b' y = cancel_store b y" for x y
    using assms(2) Some by (auto simp: RemoveClient_def close_chan_def split: if_splits)
  show ?thesis
  proof (rule registry_invI)
    fix k' ci assume "clients b' k' = Some ci"
    then show "session_ok b' ci"
      using registry_invD1 [OF assms(1), of k' ci] registry_invD2 [OF assms(1) _ Some, of k' ci]
      by (auto simp: session_ok_def cl nr ss cs split: if_splits)
  next
    fix k1 k2 ci ci'
    assume "clients b' k1 = Some ci" "clients b' k2 = Some ci'" "k1 \<noteq> k2"
    then show "sseChannel ci \<noteq> sseChannel ci' \<and> cancelChannel ci \<noteq> cancelChannel ci'"
      using registry_invD2 [OF assms(1), of k1 ci k2 ci'] by (auto simp: cl split: if_splits)
  qed
qed

lemma registry_inv_receive_sse:
  assumes "registry_inv b"
  shows "registry_inv (b\<lparr>sse_store := (sse_store b)(r := receive (sse_store b r))\<rparr>)"
proof (rule registry_invI)
  fix k ci assume "clients (b\<lparr>sse_store := (sse_store b)(r := receive (sse_store b r))\<rparr>) k = Some ci"
  then show "session_ok (b\<lparr>sse_store := (sse_store b)(r := receive (sse_store b r))\<rparr>) ci"
    using registry_invD1 [OF assms, of k ci] by (auto simp: session_ok_def)
next
  fix k1 k2 ci ci'
  assume "clients (b\<lparr>sse_store := (sse_store b)(r := receive (sse_store b r))\<rparr>) k1 = Some ci"
    "clients (b\<lparr>sse_store := (sse_store b)(r := receive (sse_store b r))\<rparr>) k2 = Some ci'" "k1 \<noteq> k2"
  then show "sseChannel ci \<noteq> sseChannel ci' \<and> cancelChannel ci \<noteq> cancelChannel ci'"
    using registry_invD2 [OF assms, of k1 ci k2 ci'] by simp
qed

lemma registry_inv_receive_cancel:
  assumes "registry_inv b"
  shows "registry_inv (b\<lparr>cancel_store := (cancel_store b)(r := receive (cancel_store b r))\<rparr>)"
proof (rule registry_invI)
  fix k ci assume "clients (b\<lparr>cancel_store := (cancel_store b)(r := receive (cancel_store b r))\<rparr>) k = Some ci"
  then show "session_ok (b\<lparr>cancel_store := (cancel_store b)(r := receive (cancel_store b r))\<rparr>) ci"
    using registry_invD1 [OF assms, of k ci] by (auto simp: session_ok_def)
next
  fix k1 k2 ci ci'
  assume "clients (b\<lparr>cancel_store := (cancel_store b)(r := receive (cancel_store b r))\<rparr>) k1 = Some ci"
    "clients (b\<lparr>cancel_store := (cancel_store b)(r := receive (cancel_store b r))\<rparr>) k2 = Some ci'" "k1 \<noteq> k2"
  then show "sseChannel ci \<noteq> sseChannel ci' \<and> cancelChannel ci \<noteq> cancelChannel ci'"
    using registry_invD2 [OF assms, of k1 ci k2 ci'] by simp
qed

lemma registry_inv_exec:
  assumes "registry_inv b" "exec x b = Inr b'" shows "registry_inv b'"
proof (cases x)
  case (OpNewClient k)
  then show ?thesis using assms registry_inv_NewClient [of b k] by auto
next
  case (OpBroadcast k e)
  then show ?thesis using assms
    by (cases "Broadcast k e b") (auto dest: registry_inv_Broadcast)
next
  case (OpCancelImport k)
  then show ?thesis using assms
    by (cases "CancelImport k b") (auto dest: registry_inv_CancelImport)
next
  case (OpRemoveClient k)
  then show ?thesis using assms by (auto dest: registry_inv_RemoveClient)
next
  case (OpReceiveSSE r)
  then show ?thesis using assms registry_inv_receive_sse [of b r] by auto
next
  case (OpReceiveCancel r)
  then show ?thesis using assms registry_inv_receive_cancel [of b r] by auto
qed

lemma registry_inv_init: "registry_inv NewBroadcaster"
  by (simp add: registry_inv_def NewBroadcaster_def)

lemma reachable_inv: "reachable b \<Longrightarrow> registry_inv b"
  by (induction rule: reachable.induct) (auto intro: registry_inv_init registry_inv_exec)

lemma run_ops_reachable: "reachable b \<Longrightarrow> run_ops xs b = Inr b' \<Longrightarrow> reachable b'"
proof (induction xs arbitrary: b)
  case Nil
  then show ?case by simp
next
  case (Cons x xs)
  then show ?case by (auto split: sum.splits intro: reachable_step)
qed

text \<open>What \<^verbatim>\<open>CancelImport\<close> does on a registered session of a reachable registry.\<close>

lemma CancelImport_registered:
  assumes "registry_inv b" "clients b k = Some ci"
  shows "CancelImport k b =
     (if isCancelled ci then Inr (Some (ErrAlreadyCancelled k), b)
      else Inr (None,
        b\<lparr>clients := (clients b)(k \<mapsto> ci\<lparr>isCancelled := True\<rparr>),
          cancel_store := (cancel_store b)(cancelChannel ci :=
            (cancel_store b (cancelChannel ci))\<lparr>buf := [True]\<rparr>),
          stdout := stdout b @ [PrintCancelSent k]\<rparr>))"
  using registry_invD1 [OF assms]
  by (auto simp: CancelImport_def Let_def try_send_def session_ok_def assms(2))

lemma exec_no_panic:
  assumes "registry_inv b" shows "\<exists>b'. exec x b = Inr b'"
proof (cases x)
  case (OpNewClient k)
  then show ?thesis by simp
next
  case (OpBroadcast k e)
  show ?thesis
  proof (cases "clients b k")
    case None
    with OpBroadcast show ?thesis by (simp add: Broadcast_def)
  next
    case (Some ci)
    with OpBroadcast registry_invD1 [OF assms Some] show ?thesis
      by (auto simp: Broadcast_def try_send_def session_ok_def)
  qed
next
  case (OpCancelImport k)
  show ?thesis
  proof (cases "clients b k")
    case None
    with OpCancelImport show ?thesis by (simp add: CancelImport_def)
  next
    case (Some ci)
    with OpCancelImport CancelImport_registered [OF assms Some] show ?thesis by auto
  qed
next
  case (OpRemoveClient k)
  show ?thesis
  proof (cases "clients b k")
    case None
    with OpRemoveClient show ?thesis by (simp add: RemoveClient_def)
  next
    case (Some ci)
    with OpRemoveClient registry_invD1 [OF assms Some] show ?thesis
      by (auto simp: RemoveClient_def close_chan_def session_ok_def)
  qed
next
  case (OpReceiveSSE r)
  then show ?thesis by simp
next
  case (OpReceiveCancel r)
  then show ?thesis by simp
qed

lemma run_ops_no_panic: "registry_inv b \<Longrightarrow> \<exists>b'. run_ops xs b = Inr b'"
proof (induction xs arbitrary: b)
  case Nil
  then show ?case by simp
next
  case (Cons x xs)
  from exec_no_panic [OF Cons.prems] obtain b1 where b1: "exec x b = Inr b1" by blast
  with Cons.prems have "registry_inv b1" by (rule registry_inv_exec)
  from Cons.IH [OF this] b1 show ?case by simp
qed

text \<open>A cancelled session stays as it is until it is removed or its identifier is issued again.\<close>

lemma exec_keeps_cancelled:
  assumes "clients b k = Some ci" "isCancelled ci" "exec x b = Inr b'"
    "x \<noteq> OpRemoveClient k" "x \<noteq> OpNewClient k"
  shows "clients b' k = Some ci"
proof (cases x)
  case (OpNewClient k')
  with assms show ?thesis by (auto simp: NewClient_def Let_def)
next
  case (OpBroadcast k' e)
  with assms show ?thesis
    by (auto simp: Broadcast_def split: option.splits if_splits send_attempt.splits)
next
  case (OpCancelImport k')
  with assms show ?thesis
    by (auto simp: CancelImport_def Let_def split: option.splits if_splits send_attempt.splits)
next
  case (OpRemoveClient k')
  with assms show ?thesis
    by (auto simp: RemoveClient_def split: option.splits sum.splits)
next
  case (OpReceiveSSE r)
  with assms show ?thesis by auto
next
  case (OpReceiveCancel r)
  with assms show ?thesis by auto
qed

lemma run_ops_keeps_cancelled:
  assumes "clients b k = Some ci" "isCancelled ci" "run_ops xs b = Inr b'"
    "OpRemoveClient k \<notin> set xs" "OpNewClient k \<notin> set xs"
  shows "clients b' k = Some ci"
  using assms
proof (induction xs arbitrary: b)
  case Nil
  then show ?case by simp
next
  case (Cons x xs)
  from Cons.prems(3) obtain b1 where b1: "exec x b = Inr b1" "run_ops xs b1 = Inr b'"
    by (auto split: sum.splits)
  from Cons.prems have "clients b1 k = Some ci"
    using exec_keeps_cancelled [OF Cons.prems(1,2) b1(1)] by auto
  from Cons.IH [OF this Cons.prems(2) b1(2)] Cons.prems show ?case by simp
qed

text \<open>An identifier that is not registered stays so until \<^verbatim>\<open>NewClient\<close> issues it.\<close>

lemma exec_keeps_absent:
  assumes "clients b k = None" "exec x b = Inr b'" "x \<noteq> OpNewClient k"
  shows "clients b' k = None"
proof (cases x)
  case (OpNewClient k')
  with assms show ?thesis by (auto simp: NewClient_def Let_def)
next
  case (OpBroadcast k' e)
  with assms show ?thesis
    by (auto simp: Broadcast_def split: option.splits if_splits send_attempt.splits)
next
  case (OpCancelImport k')
  with assms show ?thesis
    by (auto simp: CancelImport_def Let_def split: option.splits if_splits send_attempt.splits)
next
  case (OpRemoveClient k')
  with assms show ?thesis
    by (auto simp: RemoveClient_def split: option.splits sum.splits)
next
  case (OpReceiveSSE r)
  with assms show ?thesis by auto
next
  case (OpReceiveCancel r)
  with assms show ?thesis by auto
qed

lemma run_ops_keeps_absent:
  assumes "clients b k = None" "run_ops xs b = Inr b'" "OpNewClient k \<notin> set xs"
  shows "clients b' k = None"
  using assms
proof (induction xs arbitrary: b)
  case Nil
  then show ?case by simp
next
  case (Cons x xs)
  from Cons.prems(2) obtain b1 where b1: "exec x b = Inr b1" "run_ops xs b1 = Inr b'"
    by (auto split: sum.splits)
  from Cons.prems have "clients b1 k = None"
    using exec_keeps_absent [OF Cons.prems(1) b1(1)] by auto
  from Cons.IH [OF this b1(2)] Cons.prems show ?case by simp
qed

lemma RemoveClient_registered:
  assumes "registry_inv b" "clients b k = Some ci"
  shows "\<exists>b'. RemoveClient k b = Inr b' \<and> clients b' k = None"
  using registry_invD1 [OF assms]
  by (auto simp: RemoveClient_def close_chan_def session_ok_def assms(2))

lemma reachable_demo_registry: "reachable demo_registry"
  unfolding demo_registry_def
  using reachable_step [OF reachable_init, of "OpNewClient demo_client"] by simp

lemma demo_registry_client:
  "clients demo_registry demo_client = Some \<lparr>sseChannel = 0, cancelChannel = 0, isCancelled = False\<rparr>"
  by (simp add: demo_registry_def NewClient_def NewBroadcaster_def)

lemma cancelled_registry_run:
  "run_ops [OpNewClient demo_client, OpCancelImport demo_client] NewBroadcaster = Inr cancelled_registry"
  by (simp add: cancelled_registry_def NewClient_def NewBroadcaster_def CancelImport_def Let_def
      try_send_def make_chan_def)

lemma Broadcast_fills:
  assumes "clients b k = Some ci" "\<not> isCancelled ci" "\<not> is_closed (sse_store b (sseChannel ci))"
    "length (buf (sse_store b (sseChannel ci))) + n \<le> cap (sse_store b (sseChannel ci))"
  shows "run_ops (replicate n (OpBroadcast k e)) b =
     Inr (b\<lparr>sse_store := (sse_store b)(sseChannel ci :=
       (sse_store b (sseChannel ci))\<lparr>buf := buf (sse_store b (sseChannel ci)) @ replicate n e\<rparr>)\<rparr>)"
  using assms
proof (induction n arbitrary: b)
  case 0
  then show ?case by simp
next
  case (Suc n)
  let ?r = "sseChannel ci"
  let ?b1 = "b\<lparr>sse_store := (sse_store b)(?r :=
       (sse_store b ?r)\<lparr>buf := buf (sse_store b ?r) @ [e]\<rparr>)\<rparr>"
  from Suc.prems have first: "exec (OpBroadcast k e) b = Inr ?b1"
    by (simp add: Broadcast_def try_send_def)
  have rest: "run_ops (replicate n (OpBroadcast k e)) ?b1 =
     Inr (?b1\<lparr>sse_store := (sse_store ?b1)(?r :=
       (sse_store ?b1 ?r)\<lparr>buf := buf (sse_store ?b1 ?r) @ replicate n e\<rparr>)\<rparr>)"
    using Suc.prems by (intro Suc.IH) simp_all
  have same: "?b1\<lparr>sse_store := (sse_store ?b1)(?r :=
       (sse_store ?b1 ?r)\<lparr>buf := buf (sse_store ?b1 ?r) @ replicate n e\<rparr>)\<rparr> =
     b\<lparr>sse_store := (sse_store b)(?r :=
       (sse_store b ?r)\<lparr>buf := buf (sse_store b ?r) @ replicate (Suc n) e\<rparr>)\<rparr>"
    by simp
  have "run_ops (replicate (Suc n) (OpBroadcast k e)) b =
      run_ops (replicate n (OpBroadcast k e)) ?b1"
    using first by (simp del: exec.simps)
  also note rest
  also note same
  finally show ?case .
qed

lemma saturated_registry_run: "run_ops saturating_ops NewBroadcaster = Inr saturated_registry"
proof -
  have "run_ops (replicate 32 (OpBroadcast demo_client \<lparr>Data = ''hello''\<rparr>)) demo_registry =
      Inr saturated_registry"
    using Broadcast_fills [OF demo_registry_client, of 32 "\<lparr>Data = ''hello''\<rparr>"]
    by (simp add: demo_registry_def saturated_registry_def NewClient_def NewBroadcaster_def make_chan_def)
  then show ?thesis by (simp add: saturating_ops_def demo_registry_def)
qed

subsection \<open>The claims about the registry\<close>

text \<open>
  Claim C3. On a registered session that is not cancelled, \<^verbatim>\<open>CancelImport\<close> returns no
  error and sets the flag; after any further calls that neither remove the session nor
  issue its identifier again, the flag is still set and \<^verbatim>\<open>CancelImport\<close> returns the
  error "already cancelled" and changes nothing.
\<close>

theorem cancel_exactly_once:
  assumes "reachable b" "clients b k = Some ci" "\<not> isCancelled ci"
    "OpRemoveClient k \<notin> set xs" "OpNewClient k \<notin> set xs"
  shows "\<exists>b1 b2. CancelImport k b = Inr (None, b1) \<and>
           clients b1 k = Some (ci\<lparr>isCancelled := True\<rparr>) \<and>
           run_ops xs b1 = Inr b2 \<and>
           clients b2 k = Some (ci\<lparr>isCancelled := True\<rparr>) \<and>
           CancelImport k b2 = Inr (Some (ErrAlreadyCancelled k), b2)"
proof -
  from assms(1) have inv: "registry_inv b" by (rule reachable_inv)
  from CancelImport_registered [OF inv assms(2)] assms(3)
  obtain b1 where b1: "CancelImport k b = Inr (None, b1)"
    and c1: "clients b1 k = Some (ci\<lparr>isCancelled := True\<rparr>)"
    by simp
  from inv b1 have inv1: "registry_inv b1" by (rule registry_inv_CancelImport)
  from run_ops_no_panic [OF inv1] obtain b2 where b2: "run_ops xs b1 = Inr b2" by blast
  have c2: "clients b2 k = Some (ci\<lparr>isCancelled := True\<rparr>)"
    using run_ops_keeps_cancelled [OF c1 _ b2 assms(4,5)] by simp
  then have "CancelImport k b2 = Inr (Some (ErrAlreadyCancelled k), b2)"
    by (simp add: CancelImport_def)
  with b1 c1 b2 c2 show ?thesis by blast
qed

theorem cancel_exactly_once_witness:
  "reachable demo_registry \<and>
   clients demo_registry demo_client = Some \<lparr>sseChannel = 0, cancelChannel = 0, isCancelled = False\<rparr> \<and>
   OpRemoveClient demo_client \<notin> set demo_ops \<and> OpNewClient demo_client \<notin> set demo_ops \<and>
   (\<exists>b1 b2. CancelImport demo_client demo_registry = Inr (None, b1) \<and>
      clients b1 demo_client = Some \<lparr>sseChannel = 0, cancelChannel = 0, isCancelled = True\<rparr> \<and>
      run_ops demo_ops b1 = Inr b2 \<and>
      clients b2 demo_client = Some \<lparr>sseChannel = 0, cancelChannel = 0, isCancelled = True\<rparr> \<and>
      CancelImport demo_client b2 = Inr (Some (ErrAlreadyCancelled demo_client), b2))"
proof -
  have n: "\<not> isCancelled \<lparr>sseChannel = 0, cancelChannel = 0, isCancelled = False\<rparr>" by simp
  have x: "OpRemoveClient demo_client \<notin> set demo_ops" "OpNewClient demo_client \<notin> set demo_ops"
    by (simp_all add: demo_ops_def)
  from cancel_exactly_once [OF reachable_demo_registry demo_registry_client n x]
  show ?thesis using reachable_demo_registry demo_registry_client x by simp
qed

text \<open>
  Claim C4. After \<^verbatim>\<open>RemoveClient\<close> of a registered session, and after any further calls
  among which \<^verbatim>\<open>NewClient\<close> does not issue the same identifier, \<^verbatim>\<open>Broadcast\<close> and
  \<^verbatim>\<open>CancelImport\<close> for that identifier return their "not found" errors.
\<close>

theorem removed_session_not_found:
  assumes "reachable b" "clients b k = Some ci" "OpNewClient k \<notin> set xs"
  shows "\<exists>b1 b2. RemoveClient k b = Inr b1 \<and> clients b1 k = None \<and>
           run_ops xs b1 = Inr b2 \<and> clients b2 k = None \<and>
           Broadcast k e b2 = Inr (Some (ErrClientNotFound k), b2) \<and>
           CancelImport k b2 = Inr (Some (ErrClientNotFoundForCancellation k), b2)"
proof -
  from assms(1) have inv: "registry_inv b" by (rule reachable_inv)
  from RemoveClient_registered [OF inv assms(2)]
  obtain b1 where b1: "RemoveClient k b = Inr b1" and c1: "clients b1 k = None" by blast
  from inv b1 have inv1: "registry_inv b1" by (rule registry_inv_RemoveClient)
  from run_ops_no_panic [OF inv1] obtain b2 where b2: "run_ops xs b1 = Inr b2" by blast
  from run_ops_keeps_absent [OF c1 b2 assms(3)] have c2: "clients b2 k = None" .
  then have "Broadcast k e b2 = Inr (Some (ErrClientNotFound k), b2)"
    "CancelImport k b2 = Inr (Some (ErrClientNotFoundForCancellation k), b2)"
    by (simp_all add: Broadcast_def CancelImport_def)
  with b1 c1 b2 c2 show ?thesis by blast
qed

theorem removed_session_not_found_witness:
  "reachable demo_registry \<and>
   clients demo_registry demo_client = Some \<lparr>sseChannel = 0, cancelChannel = 0, isCancelled = False\<rparr> \<and>
   OpNewClient demo_client \<notin> set later_ops \<and>
   (\<exists>b1 b2. RemoveClient demo_client demo_registry = Inr b1 \<and> clients b1 demo_client = None \<and>
      run_ops later_ops b1 = Inr b2 \<and> clients b2 demo_client = None \<and>
      Broadcast demo_client \<lparr>Data = ''hello''\<rparr> b2 = Inr (Some (ErrClientNotFound demo_client), b2) \<and>
      CancelImport demo_client b2 = Inr (Some (ErrClientNotFoundForCancellation demo_client), b2))"
proof -
  have x: "OpNewClient demo_client \<notin> set later_ops"
    by (simp add: later_ops_def demo_client_def)
  from removed_session_not_found [OF reachable_demo_registry demo_registry_client x]
  show ?thesis using reachable_demo_registry demo_registry_client x by simp
qed

text \<open>
  Claim C5. \<^verbatim>\<open>Broadcast\<close> to a registered session whose flag is set returns no error and
  leaves the whole registry, the session's event buffer included, as it was.
\<close>

theorem broadcast_to_cancelled_is_noop:
  assumes "clients b k = Some ci" "isCancelled ci"
  shows "Broadcast k e b = Inr (None, b)"
  using assms by (simp add: Broadcast_def)

theorem broadcast_to_cancelled_is_noop_witness:
  "run_ops [OpNewClient demo_client, OpCancelImport demo_client] NewBroadcaster = Inr cancelled_registry \<and>
   clients cancelled_registry demo_client =
     Some \<lparr>sseChannel = 0, cancelChannel = 0, isCancelled = True\<rparr> \<and>
   Broadcast demo_client \<lparr>Data = ''hello''\<rparr> cancelled_registry = Inr (None, cancelled_registry) \<and>
   buf (sse_store cancelled_registry 0) = []"
proof -
  have c: "clients cancelled_registry demo_client =
     Some \<lparr>sseChannel = 0, cancelChannel = 0, isCancelled = True\<rparr>"
    by (simp add: cancelled_registry_def)
  have i: "isCancelled \<lparr>sseChannel = 0, cancelChannel = 0, isCancelled = True\<rparr>" by simp
  from broadcast_to_cancelled_is_noop [OF c i, of "\<lparr>Data = ''hello''\<rparr>"]
  show ?thesis using c cancelled_registry_run by (simp add: cancelled_registry_def make_chan_def)
qed

text \<open>
  Claim C6. When the event buffer of a registered session that is not cancelled holds 32
  events, the buffer is full (its capacity is 32) and \<^verbatim>\<open>Broadcast\<close> returns the error
  "channel full or closed"; the event is not delivered, only the failure is printed.
\<close>

theorem broadcast_on_full_buffer_fails:
  assumes "reachable b" "clients b k = Some ci" "\<not> isCancelled ci"
    "length (buf (sse_store b (sseChannel ci))) = 32"
  shows "cap (sse_store b (sseChannel ci)) = 32 \<and>
     Broadcast k e b =
       Inr (Some (ErrSSESendFailed k), b\<lparr>stdout := stdout b @ [PrintSSEFailed k]\<rparr>)"
  using registry_invD1 [OF reachable_inv [OF assms(1)] assms(2)] assms(2-4)
  by (simp add: Broadcast_def try_send_def session_ok_def)

theorem broadcast_on_full_buffer_fails_witness:
  "run_ops saturating_ops NewBroadcaster = Inr saturated_registry \<and>
   clients saturated_registry demo_client =
     Some \<lparr>sseChannel = 0, cancelChannel = 0, isCancelled = False\<rparr> \<and>
   length (buf (sse_store saturated_registry 0)) = 32 \<and>
   cap (sse_store saturated_registry 0) = 32 \<and>
   Broadcast demo_client \<lparr>Data = ''one more''\<rparr> saturated_registry =
     Inr (Some (ErrSSESendFailed demo_client),
          saturated_registry\<lparr>stdout := [PrintRegistered demo_client, PrintSSEFailed demo_client]\<rparr>)"
proof -
  have r: "reachable saturated_registry"
    using run_ops_reachable [OF reachable_init saturated_registry_run] .
  have c: "clients saturated_registry demo_client =
     Some \<lparr>sseChannel = 0, cancelChannel = 0, isCancelled = False\<rparr>"
    by (simp add: saturated_registry_def)
  have n: "\<not> isCancelled \<lparr>sseChannel = 0, cancelChannel = 0, isCancelled = False\<rparr>" by simp
  have l: "length (buf (sse_store saturated_registry
      (sseChannel \<lparr>sseChannel = 0, cancelChannel = 0, isCancelled = False\<rparr>))) = 32"
    by (simp add: saturated_registry_def)
  from broadcast_on_full_buffer_fails [OF r c n l, of "\<lparr>Data = ''one more''\<rparr>"]
  show ?thesis using c l saturated_registry_run by (simp add: saturated_registry_def)
qed

text \<open>
  Claim C9. On a registered session of a reachable registry \<^verbatim>\<open>CancelImport\<close> returns
  either no error or "already cancelled", never the error of a failed send on the
  cancel channel (and it does not panic).
\<close>

theorem cancel_signal_send_never_fails:
  assumes "reachable b" "clients b k = Some ci"
  shows "\<exists>r b'. CancelImport k b = Inr (r, b') \<and>
           (r = None \<or> r = Some (ErrAlreadyCancelled k)) \<and> r \<noteq> Some (ErrCancelSendFailed k)"
  using CancelImport_registered [OF reachable_inv [OF assms(1)] assms(2)] by simp

theorem cancel_signal_send_never_fails_witness:
  "reachable demo_registry \<and>
   clients demo_registry demo_client = Some \<lparr>sseChannel = 0, cancelChannel = 0, isCancelled = False\<rparr> \<and>
   (\<exists>r b'. CancelImport demo_client demo_registry = Inr (r, b') \<and>
           (r = None \<or> r = Some (ErrAlreadyCancelled demo_client)) \<and>
           r \<noteq> Some (ErrCancelSendFailed demo_client))"
  using cancel_signal_send_never_fails [OF reachable_demo_registry demo_registry_client]
    reachable_demo_registry demo_registry_client by simp

text \<open>
  Claim C10. \<^verbatim>\<open>RemoveClient\<close> of an identifier that is not registered returns with the
  registry unchanged: the map, every channel and every session are as before.
\<close>

theorem remove_unknown_client_changes_nothing:
  assumes "clients b k = None"
  shows "RemoveClient k b = Inr b"
  using assms by (simp add: RemoveClient_def)

theorem remove_unknown_client_changes_nothing_witness:
  "clients demo_registry ''client-2'' = None \<and>
   RemoveClient ''client-2'' demo_registry = Inr demo_registry \<and>
   clients demo_registry demo_client = Some \<lparr>sseChannel = 0, cancelChannel = 0, isCancelled = False\<rparr>"
proof -
  have c: "clients demo_registry ''client-2'' = None"
    by (simp add: demo_registry_def demo_client_def NewClient_def NewBroadcaster_def)
  from remove_unknown_client_changes_nothing [OF c] show ?thesis
    using c demo_registry_client by simp
qed

section \<open>Properties of the embedding calculator service\<close>

lemma filter_update_length:
  "i < length xs \<Longrightarrow>
     length (filter P (xs[i := y])) + (if P (xs ! i) then 1 else 0) =
     length (filter P xs) + (if P y then 1 else 0)"
proof (induction xs arbitrary: i)
  case Nil
  then show ?case by simp
next
  case (Cons x xs)
  show ?case
  proof (cases i)
    case 0
    then show ?thesis by simp
  next
    case (Suc j)
    with Cons.prems have "j < length xs" by simp
    from Cons.IH [OF this] Suc show ?thesis by simp
  qed
qed

lemma active_update_same:
  "i < length ws \<Longrightarrow> ws ! i \<noteq> WExited \<Longrightarrow> w \<noteq> WExited \<Longrightarrow>
     active_workers (ws[i := w]) = active_workers ws"
  using filter_update_length [of i ws "\<lambda>w. w \<noteq> WExited" w] by (simp add: active_workers_def)

lemma active_update_exit:
  "i < length ws \<Longrightarrow> ws ! i \<noteq> WExited \<Longrightarrow>
     active_workers (ws[i := WExited]) = active_workers ws - 1 \<and> 0 < active_workers ws"
  using filter_update_length [of i ws "\<lambda>w. w \<noteq> WExited" WExited] by (auto simp: active_workers_def)

lemma active_zero: "active_workers ws = 0 \<Longrightarrow> i < length ws \<Longrightarrow> ws ! i = WExited"
  by (auto simp: active_workers_def filter_empty_conv)

lemma active_append [simp]: "active_workers (ws @ [WReceive]) = Suc (active_workers ws)"
  by (simp add: active_workers_def)

lemma in_set_updD: "x \<in> set (xs[i := y]) \<Longrightarrow> x = y \<or> x \<in> set xs"
  using set_update_subset_insert [of xs i y] by auto

lemma service_inv_init: "service_inv StartEmbeddingCalculatorService"
  by (simp add: service_inv_def StartEmbeddingCalculatorService_def make_chan_def
      active_workers_def spawning_def numProcessorWorkers_def)

lemma inv_OrchSpawnWorker:
  assumes "service_inv s" "go_step OrchSpawnWorker s = Some s'" shows "service_inv s'"
proof -
  from assms(2) obtain i where o: "orchestrator s = OSpawnWorkers i"
    by (auto split: orchestrator_pc.splits)
  show ?thesis
  proof (cases "i < numProcessorWorkers")
    case True
    with assms(2) o have s': "s' = s\<lparr>processorsWg := processorsWg s + 1, workers := workers s @ [WReceive],
                       orchestrator := OSpawnWorkers (i + 1)\<rparr>" by simp
    from assms(1) True show ?thesis unfolding s' service_inv_def
      by (auto simp: o spawning_def left_loop_def)
  next
    case False
    with assms(2) o have s': "s' = s\<lparr>orchestrator := OSpawnUpdater\<rparr>" by simp
    from assms(1) False show ?thesis unfolding s' service_inv_def
      by (auto simp: o spawning_def)
  qed
qed

lemma inv_OrchSpawnUpdater:
  assumes "service_inv s" "go_step OrchSpawnUpdater s = Some s'" shows "service_inv s'"
proof -
  from assms(2) have o: "orchestrator s = OSpawnUpdater"
    and s': "s' = s\<lparr>mainWg := mainWg s + 1, updater := UReceive, orchestrator := OSpawnCloser\<rparr>"
    by (auto split: if_splits)
  from assms(1) show ?thesis unfolding s' service_inv_def by (auto simp: o spawning_def)
qed

lemma inv_OrchSpawnCloser:
  assumes "service_inv s" "go_step OrchSpawnCloser s = Some s'" shows "service_inv s'"
proof -
  from assms(2) have o: "orchestrator s = OSpawnCloser"
    and s': "s' = s\<lparr>closer := CWait, orchestrator := OSelect\<rparr>"
    by (auto split: if_splits)
  from assms(1) show ?thesis unfolding s' service_inv_def by (auto simp: o spawning_def)
qed

lemma inv_OrchTick:
  assumes "service_inv s" "go_step (OrchTick a k b) s = Some s'" shows "service_inv s'"
proof -
  from assms(2) have o: "orchestrator s = OSelect"
    and s': "s' = s\<lparr>orchestrator := OFetch (dummyDefinitions a k b)\<rparr>"
    by (auto split: if_splits)
  from assms(1) show ?thesis unfolding s' service_inv_def by (auto simp: o spawning_def)
qed

lemma inv_CloseStopChan:
  assumes "service_inv s" "go_step CloseStopChan s = Some s'" shows "service_inv s'"
proof -
  from assms(2) have s': "s' = s\<lparr>stopChan_closed := True\<rparr>"
    by (auto split: if_splits)
  from assms(1) show ?thesis unfolding s' service_inv_def by auto
qed

lemma inv_OrchStop:
  assumes "service_inv s" "go_step OrchStop s = Some s'" shows "service_inv s'"
proof -
  from assms(2) have o: "orchestrator s = OSelect"
    and s': "s' = s\<lparr>orchestrator := OStopping\<rparr>"
    by (auto split: if_splits)
  from assms(1) show ?thesis unfolding s' service_inv_def by (auto simp: o spawning_def)
qed

lemma inv_OrchFetchSend:
  assumes "service_inv s" "go_step OrchFetchSend s = Some s'" shows "service_inv s'"
proof -
  from assms(2) obtain ds where o: "orchestrator s = OFetch ds"
    by (auto split: orchestrator_pc.splits)
  from assms(1) have open_defs: "\<not> is_closed (defsToProcessChan s)"
    and none_left: "\<forall>w \<in> set (workers s). \<not> left_loop w"
    unfolding service_inv_def by (auto simp: o)
  show ?thesis
  proof (cases ds)
    case Nil
    with assms(2) o have s': "s' = s\<lparr>orchestrator := OSelect\<rparr>" by simp
    from assms(1) show ?thesis unfolding s' service_inv_def by (auto simp: o spawning_def)
  next
    case (Cons d ds')
    show ?thesis
    proof (cases "length (buf (defsToProcessChan s)) < cap (defsToProcessChan s)")
      case True
      with assms(2) o Cons open_defs
      have s': "s' = s\<lparr>defsToProcessChan := (defsToProcessChan s)\<lparr>buf := buf (defsToProcessChan s) @ [d]\<rparr>,
          logged := logged s @ [FetcherSent (ID d)], orchestrator := OFetch ds'\<rparr>"
        by (simp add: send_or_skip_def try_send_def)
      from assms(1) none_left show ?thesis unfolding s' service_inv_def
        by (auto simp: o spawning_def)
    next
      case False
      with assms(2) o Cons open_defs
      have s': "s' = s\<lparr>defsToProcessChan := defsToProcessChan s,
          logged := logged s @ [FetcherSkipped (ID d)], orchestrator := OFetch ds'\<rparr>"
        by (simp add: send_or_skip_def try_send_def)
      from assms(1) show ?thesis unfolding s' service_inv_def
        by (auto simp: o spawning_def)
    qed
  qed
qed

lemma inv_OrchCloseDefs:
  assumes "service_inv s" "go_step OrchCloseDefs s = Some s'" shows "service_inv s'"
proof -
  from assms(2) have o: "orchestrator s = OStopping" by (auto split: if_splits)
  from assms(1) have open_defs: "\<not> is_closed (defsToProcessChan s)"
    unfolding service_inv_def by (auto simp: o)
  with assms(2) o
  have s': "s' = s\<lparr>defsToProcessChan := (defsToProcessChan s)\<lparr>is_closed := True\<rparr>,
      orchestrator := OWaitMain\<rparr>"
    by (simp add: close_chan_def)
  from assms(1) show ?thesis unfolding s' service_inv_def by (auto simp: o spawning_def)
qed

lemma inv_OrchWaitReturn:
  assumes "service_inv s" "go_step OrchWaitReturn s = Some s'" shows "service_inv s'"
proof -
  from assms(2) have o: "orchestrator s = OWaitMain" and m: "mainWg s = 0"
    and s': "s' = s\<lparr>orchestrator := OReturned\<rparr>"
    by (auto split: if_splits)
  from assms(1) have "updater s = UExited"
    unfolding service_inv_def by (cases "updater s") (auto simp: o m)
  with assms(1) show ?thesis unfolding s' service_inv_def by (auto simp: o spawning_def)
qed

lemma inv_WorkerReceive:
  assumes "service_inv s" "go_step (WorkerReceive w) s = Some s'" shows "service_inv s'"
proof -
  from assms(2) have w: "w < length (workers s)" "workers s ! w = WReceive"
    by (auto split: if_splits)
  have act: "active_workers ((workers s)[w := x]) = active_workers (workers s)" if "x \<noteq> WExited" for x
    using active_update_same [OF w(1) _ that] w(2) by simp
  show ?thesis
  proof (cases "buf (defsToProcessChan s)")
    case Nil
    with assms(2) w have c: "is_closed (defsToProcessChan s)"
      and s': "s' = s\<lparr>workers := (workers s)[w := WReturn]\<rparr>"
      by (auto simp: try_recv_def split: if_splits)
    from assms(1) show ?thesis unfolding s' service_inv_def
      by (auto simp: act c Nil)
  next
    case (Cons d ds)
    with assms(2) w
    have s': "s' = s\<lparr>defsToProcessChan := (defsToProcessChan s)\<lparr>buf := ds\<rparr>,
                        logged := logged s @ [WorkerReceived w (ID d)],
                        workers := (workers s)[w := WSend
                          \<lparr>DefinitionID = ID d, Embedding = dummy_embedding (ID d) w,
                           Error = None\<rparr>]\<rparr>"
      by (auto simp: try_recv_def)
    from assms(1) have none_left: "\<forall>x \<in> set (workers s). \<not> left_loop x"
      unfolding service_inv_def by (auto simp: Cons)
    have "\<not> left_loop x" if "x \<in> set ((workers s)[w := WSend r])" for x r
      using in_set_updD [OF that] none_left by (auto simp: left_loop_def)
    with assms(1) show ?thesis unfolding s' service_inv_def
      by (auto simp: act)
  qed
qed

lemma inv_WorkerSend:
  assumes "service_inv s" "go_step (WorkerSend w) s = Some s'" shows "service_inv s'"
proof -
  from assms(2) obtain r where w: "w < length (workers s)" "workers s ! w = WSend r"
    by (auto split: if_splits worker_pc.splits)
  have act: "active_workers ((workers s)[w := WReceive]) = active_workers (workers s)"
    using active_update_same [OF w(1), of WReceive] w(2) by simp
  have pos: "active_workers (workers s) \<noteq> 0"
    using active_zero [of "workers s" w] w by auto
  with assms(1) have open_res: "\<not> is_closed (resultsChan s)" and upd: "updater s \<noteq> UReturn" "updater s \<noteq> UExited"
    unfolding service_inv_def by auto
  with assms(2) w
  have s': "s' = s\<lparr>resultsChan := (resultsChan s)\<lparr>buf := buf (resultsChan s) @ [r]\<rparr>,
       workers := (workers s)[w := WReceive]\<rparr>"
    by (auto simp: try_send_def split: if_splits)
  have "left_loop x \<Longrightarrow> x \<in> set (workers s)" if "x \<in> set ((workers s)[w := WReceive])" for x
    using in_set_updD [OF that] by (auto simp: left_loop_def)
  with assms(1) upd show ?thesis unfolding s' service_inv_def
    by (auto simp: act)
qed

lemma inv_WorkerDone:
  assumes "service_inv s" "go_step (WorkerDone w) s = Some s'" shows "service_inv s'"
proof -
  from assms(2) have w: "w < length (workers s)" "workers s ! w = WReturn"
    by (auto split: if_splits)
  have act: "active_workers ((workers s)[w := WExited]) = active_workers (workers s) - 1"
    and pos: "0 < active_workers (workers s)"
    using active_update_exit [OF w(1)] w(2) by simp_all
  from assms(1) have pw: "processorsWg s = active_workers (workers s)"
    unfolding service_inv_def by simp
  with assms(2) w pos
  have s': "s' = s\<lparr>processorsWg := processorsWg s - 1, workers := (workers s)[w := WExited]\<rparr>"
    by (auto simp: wg_done_def)
  have "left_loop (workers s ! w)" using w by (simp add: left_loop_def)
  then have ex: "\<exists>x \<in> set (workers s). left_loop x" using w(1) nth_mem by blast
  with assms(1) pos show ?thesis unfolding s' service_inv_def
    by (auto simp: act)
qed

lemma inv_UpdaterReceive:
  assumes "service_inv s" "go_step UpdaterReceive s = Some s'" shows "service_inv s'"
proof -
  from assms(2) have u: "updater s = UReceive" by (auto split: if_splits)
  show ?thesis
  proof (cases "buf (resultsChan s)")
    case Nil
    with assms(2) u have c: "is_closed (resultsChan s)"
      and s': "s' = s\<lparr>updater := UReturn\<rparr>"
      by (auto simp: try_recv_def split: if_splits)
    from assms(1) show ?thesis unfolding s' service_inv_def
      by (auto simp: u c Nil)
  next
    case (Cons r rs)
    with assms(2) u obtain l where
      s': "s' = s\<lparr>resultsChan := (resultsChan s)\<lparr>buf := rs\<rparr>, logged := logged s @ [l]\<rparr>"
      by (auto simp: try_recv_def)
    from assms(1) show ?thesis unfolding s' service_inv_def
      by (auto simp: u)
  qed
qed

lemma inv_UpdaterDone:
  assumes "service_inv s" "go_step UpdaterDone s = Some s'" shows "service_inv s'"
proof -
  from assms(2) have u: "updater s = UReturn" by (auto split: if_splits)
  with assms(1) have m: "mainWg s = 1" unfolding service_inv_def by simp
  with assms(2) u have s': "s' = s\<lparr>mainWg := 0, updater := UExited\<rparr>"
    by (auto simp: wg_done_def)
  from assms(1) show ?thesis unfolding s' service_inv_def
    by (auto simp: u)
qed

lemma inv_CloserWait:
  assumes "service_inv s" "go_step CloserWait s = Some s'" shows "service_inv s'"
proof -
  from assms(2) have c: "closer s = CWait" "processorsWg s = 0" and s': "s' = s\<lparr>closer := CClose\<rparr>"
    by (auto split: if_splits)
  from assms(1) show ?thesis unfolding s' service_inv_def
    by (auto simp: c)
qed

lemma inv_CloserClose:
  assumes "service_inv s" "go_step CloserClose s = Some s'" shows "service_inv s'"
proof -
  from assms(2) have c: "closer s = CClose" by (auto split: if_splits)
  with assms(1) have open_res: "\<not> is_closed (resultsChan s)" unfolding service_inv_def by simp
  with assms(2) c
  have s': "s' = s\<lparr>resultsChan := (resultsChan s)\<lparr>is_closed := True\<rparr>, closer := CExited\<rparr>"
    by (auto simp: close_chan_def)
  from assms(1) show ?thesis unfolding s' service_inv_def
    by (auto simp: c)
qed

lemma ids_append [simp]:
  "sent_ids (xs @ ys) = sent_ids xs @ sent_ids ys"
  "received_ids (xs @ ys) = received_ids xs @ received_ids ys"
  "handled_ids (xs @ ys) = handled_ids xs @ handled_ids ys"
  by (simp_all add: sent_ids_def received_ids_def handled_ids_def)

lemma ids_single [simp]:
  "sent_ids [l] = sent_id l" "received_ids [l] = received_id l" "handled_ids [l] = handled_id l"
  by (simp_all add: sent_ids_def received_ids_def handled_ids_def)

lemma in_flight_ids_append [simp]: "in_flight_ids (ws @ [w]) = in_flight_ids ws @ in_flight w"
  by (simp add: in_flight_ids_def)

lemma in_flight_update:
  "i < length ws \<Longrightarrow>
     mset (in_flight_ids (ws[i := w])) + mset (in_flight (ws ! i)) =
     mset (in_flight_ids ws) + mset (in_flight w)"
proof (induction ws arbitrary: i)
  case Nil
  then show ?case by simp
next
  case (Cons x xs)
  show ?case
  proof (cases i)
    case 0
    then show ?thesis by (simp add: in_flight_ids_def)
  next
    case (Suc j)
    with Cons.prems have "j < length xs" by simp
    from Cons.IH [OF this] Suc show ?thesis by (simp add: in_flight_ids_def)
  qed
qed

lemma conservation_init: "conservation StartEmbeddingCalculatorService"
  by (simp add: conservation_def StartEmbeddingCalculatorService_def make_chan_def
      sent_ids_def received_ids_def handled_ids_def in_flight_ids_def)

lemma conservation_crash [simp]: "conservation (crash p s) = conservation s"
  by (simp add: conservation_def crash_def)

lemma conservation_WorkerReceive:
  assumes "conservation s" "go_step (WorkerReceive w) s = Some s'" shows "conservation s'"
proof -
  from assms(2) have w: "w < length (workers s)" "workers s ! w = WReceive"
    by (auto split: if_splits)
  show ?thesis
  proof (cases "buf (defsToProcessChan s)")
    case Nil
    with assms(2) w have s': "s' = s\<lparr>workers := (workers s)[w := WReturn]\<rparr>"
      by (auto simp: try_recv_def split: if_splits)
    from in_flight_update [OF w(1), of WReturn] w(2) assms(1) show ?thesis
      unfolding s' conservation_def by simp
  next
    case (Cons d ds)
    with assms(2) w
    have s': "s' = s\<lparr>defsToProcessChan := (defsToProcessChan s)\<lparr>buf := ds\<rparr>,
                        logged := logged s @ [WorkerReceived w (ID d)],
                        workers := (workers s)[w := WSend
                          \<lparr>DefinitionID = ID d, Embedding = dummy_embedding (ID d) w,
                           Error = None\<rparr>]\<rparr>"
      by (auto simp: try_recv_def)
    from in_flight_update [OF w(1), of "WSend \<lparr>DefinitionID = ID d, Embedding = dummy_embedding (ID d) w,
                           Error = None\<rparr>"] w(2) assms(1) show ?thesis
      unfolding s' conservation_def by (simp add: Cons)
  qed
qed

lemma conservation_WorkerSend:
  assumes "conservation s" "go_step (WorkerSend w) s = Some s'" shows "conservation s'"
proof -
  from assms(2) obtain r where w: "w < length (workers s)" "workers s ! w = WSend r"
    by (auto split: if_splits worker_pc.splits)
  show ?thesis
  proof (cases "is_closed (resultsChan s)")
    case True
    with assms w show ?thesis by (auto simp: try_send_def)
  next
    case False
    with assms(2) w
    have s': "s' = s\<lparr>resultsChan := (resultsChan s)\<lparr>buf := buf (resultsChan s) @ [r]\<rparr>,
         workers := (workers s)[w := WReceive]\<rparr>"
      by (auto simp: try_send_def split: if_splits)
    from in_flight_update [OF w(1), of WReceive] w(2) assms(1) show ?thesis
      unfolding s' conservation_def by simp
  qed
qed

lemma conservation_WorkerDone:
  assumes "conservation s" "go_step (WorkerDone w) s = Some s'" shows "conservation s'"
proof -
  from assms(2) have w: "w < length (workers s)" "workers s ! w = WReturn"
    by (auto split: if_splits)
  show ?thesis
  proof (cases "processorsWg s = 0")
    case True
    with assms w show ?thesis by (auto simp: wg_done_def)
  next
    case False
    with assms(2) w
    have s': "s' = s\<lparr>processorsWg := processorsWg s - 1, workers := (workers s)[w := WExited]\<rparr>"
      by (auto simp: wg_done_def)
    from in_flight_update [OF w(1), of WExited] w(2) assms(1) show ?thesis
      unfolding s' conservation_def by simp
  qed
qed

lemma conservation_go_step:
  assumes "conservation s" "go_step a s = Some s'" shows "conservation s'"
proof (cases a)
  case OrchSpawnWorker
  with assms show ?thesis
    by (auto simp: conservation_def split: orchestrator_pc.splits if_splits)
next
  case OrchSpawnUpdater
  with assms show ?thesis by (auto simp: conservation_def split: if_splits)
next
  case OrchSpawnCloser
  with assms show ?thesis by (auto simp: conservation_def split: if_splits)
next
  case (OrchTick a k b)
  with assms show ?thesis by (auto simp: conservation_def split: if_splits)
next
  case OrchFetchSend
  with assms show ?thesis
    by (auto simp: conservation_def send_or_skip_def try_send_def crash_def
        split: orchestrator_pc.splits list.splits if_splits)
next
  case CloseStopChan
  with assms show ?thesis by (auto simp: conservation_def split: if_splits)
next
  case OrchStop
  with assms show ?thesis by (auto simp: conservation_def split: if_splits)
next
  case OrchCloseDefs
  with assms show ?thesis
    by (auto simp: conservation_def close_chan_def crash_def split: if_splits)
next
  case OrchWaitReturn
  with assms show ?thesis by (auto simp: conservation_def split: if_splits)
next
  case (WorkerReceive w)
  with assms show ?thesis by (auto dest: conservation_WorkerReceive)
next
  case (WorkerSend w)
  with assms show ?thesis by (auto dest: conservation_WorkerSend)
next
  case (WorkerDone w)
  with assms show ?thesis by (auto dest: conservation_WorkerDone)
next
  case UpdaterReceive
  with assms show ?thesis
    by (auto simp: conservation_def try_recv_def split: if_splits list.splits option.splits)
next
  case UpdaterDone
  with assms show ?thesis
    by (auto simp: conservation_def wg_done_def crash_def split: if_splits)
next
  case CloserWait
  with assms show ?thesis by (auto simp: conservation_def split: if_splits)
next
  case CloserClose
  with assms show ?thesis
    by (auto simp: conservation_def close_chan_def crash_def split: if_splits)
qed

lemma service_inv_go_step:
  assumes "service_inv s" "go_step a s = Some s'" shows "service_inv s'"
  using assms
  by (cases a)
    (blast intro: inv_OrchSpawnWorker inv_OrchSpawnUpdater inv_OrchSpawnCloser inv_OrchTick
      inv_OrchFetchSend inv_CloseStopChan inv_OrchStop inv_OrchCloseDefs inv_OrchWaitReturn
      inv_WorkerReceive inv_WorkerSend inv_WorkerDone inv_UpdaterReceive inv_UpdaterDone
      inv_CloserWait inv_CloserClose)+

lemma service_reachable_inv: "service_reachable s \<Longrightarrow> service_inv s"
proof (induction rule: service_reachable.induct)
  case service_init
  show ?case by (rule service_inv_init)
next
  case (service_step s a s')
  then show ?case by (auto simp: step_def split: if_splits intro: service_inv_go_step)
qed

lemma service_reachable_conservation: "service_reachable s \<Longrightarrow> conservation s"
proof (induction rule: service_reachable.induct)
  case service_init
  show ?case by (rule conservation_init)
next
  case (service_step s a s')
  then show ?case by (auto simp: step_def split: if_splits intro: conservation_go_step)
qed

lemma run_steps_reachable:
  "service_reachable s \<Longrightarrow> run_steps as s = Some s' \<Longrightarrow> service_reachable s'"
proof (induction as arbitrary: s)
  case Nil
  then show ?case by simp
next
  case (Cons a as)
  then show ?case by (auto split: option.splits intro: service_step)
qed

lemma all_exited: "active_workers ws = 0 \<Longrightarrow> \<forall>w \<in> set ws. w = WExited"
  by (auto simp: active_workers_def filter_empty_conv)

lemma in_flight_exited: "\<forall>w \<in> set ws. w = WExited \<Longrightarrow> in_flight_ids ws = []"
  by (induction ws) (auto simp: in_flight_ids_def)

lemma service_invD:
  assumes "service_inv s"
  shows "panicked s = None"
    and "cap (defsToProcessChan s) = 10"
    and "cap (resultsChan s) = 10"
    and "length (workers s) =
       (case orchestrator s of OSpawnWorkers i \<Rightarrow> i | _ \<Rightarrow> numProcessorWorkers)"
    and "processorsWg s = active_workers (workers s)"
    and "is_closed (defsToProcessChan s) \<longleftrightarrow>
       orchestrator s = OWaitMain \<or> orchestrator s = OReturned"
    and "(\<exists>w \<in> set (workers s). left_loop w) \<longrightarrow>
       is_closed (defsToProcessChan s) \<and> buf (defsToProcessChan s) = []"
    and "closer s = CNotStarted \<longleftrightarrow> spawning (orchestrator s)"
    and "closer s = CClose \<or> closer s = CExited \<longrightarrow> processorsWg s = 0"
    and "is_closed (resultsChan s) \<longleftrightarrow> closer s = CExited"
    and "mainWg s = (if updater s = UReceive \<or> updater s = UReturn then 1 else 0)"
    and "updater s = UReturn \<or> updater s = UExited \<longrightarrow>
       is_closed (resultsChan s) \<and> buf (resultsChan s) = []"
    and "orchestrator s = OReturned \<longrightarrow> updater s = UExited"
  using assms unfolding service_inv_def by (elim conjE, assumption | (elim conjE, fast))+

lemma workers_all_exited:
  assumes "service_inv s" "is_closed (resultsChan s)"
  shows "length (workers s) = numProcessorWorkers" "\<forall>w \<in> set (workers s). w = WExited"
    "processorsWg s = 0" "is_closed (defsToProcessChan s)" "buf (defsToProcessChan s) = []"
proof -
  note inv = service_invD [OF assms(1)]
  from inv(10) assms(2) have ce: "closer s = CExited" by simp
  with inv(9) show z: "processorsWg s = 0" by simp
  with inv(5) have a: "active_workers (workers s) = 0" by simp
  from inv(8) ce have "\<not> spawning (orchestrator s)" by simp
  with inv(4) show l: "length (workers s) = numProcessorWorkers"
    by (cases "orchestrator s") (simp_all add: spawning_def)
  from all_exited [OF a] show e: "\<forall>w \<in> set (workers s). w = WExited" .
  from l have "workers s \<noteq> []" by (auto simp: numProcessorWorkers_def)
  then obtain x where "x \<in> set (workers s)" by (cases "workers s") auto
  with e have "\<exists>w \<in> set (workers s). left_loop w" by (auto simp: left_loop_def)
  with inv(7) show "is_closed (defsToProcessChan s)" "buf (defsToProcessChan s) = []"
    by simp_all
qed

text \<open>The example runs end in the example states.\<close>

lemmas run_simps = StartEmbeddingCalculatorService_def step_def make_chan_def
  numProcessorWorkers_def dummyDefinitions_def send_or_skip_def try_send_def try_recv_def
  close_chan_def wg_done_def

lemma demo_run_final: "run_steps demo_run StartEmbeddingCalculatorService = Some demo_final"
  by (simp add: demo_run_def demo_final_def demo_log_def run_simps)

lemma demo_final_reachable: "service_reachable demo_final"
  using run_steps_reachable [OF service_init demo_run_final] .

lemma started_run_state: "run_steps started_run StartEmbeddingCalculatorService = Some started_state"
  by (simp add: started_run_def started_state_def run_simps)

lemma backlog_run_state: "run_steps backlog_run StartEmbeddingCalculatorService = Some backlog_state"
  by (simp add: backlog_run_def started_run_def backlog_state_def backlog_def run_simps)

lemma started_state_reachable: "service_reachable started_state"
  using run_steps_reachable [OF service_init started_run_state] .

lemma backlog_state_reachable: "service_reachable backlog_state"
  using run_steps_reachable [OF service_init backlog_run_state] .

lemma send_or_skip_open:
  assumes "\<not> is_closed ch"
  shows "\<exists>ch' lg'. send_or_skip d ch lg = Inr (ch', lg') \<and> \<not> is_closed ch'"
  using assms by (simp add: send_or_skip_def try_send_def)

text \<open>
  A tick whose fetch no other goroutine interrupts: the two send attempts do to the
  channel and the log what \<^verbatim>\<open>fetchAndSendDefinitions\<close> does, there is no panic, and the
  orchestrator is back at its \<^verbatim>\<open>select\<close>.
\<close>

lemma tick_runs_fetch:
  assumes "service_reachable s" "orchestrator s = OSelect" "sec1 < 60" "sec2 < 60"
  shows "\<exists>s'. run_steps [OrchTick sec1 kitchen sec2, OrchFetchSend, OrchFetchSend, OrchFetchSend] s
        = Some s' \<and>
     orchestrator s' = OSelect \<and> panicked s' = None \<and>
     fetchAndSendDefinitions sec1 kitchen sec2 (defsToProcessChan s) (logged s) =
       Inr (defsToProcessChan s', logged s')"
proof -
  note d = service_invD [OF service_reachable_inv [OF assms(1)]]
  from d(6) assms(2) have op: "\<not> is_closed (defsToProcessChan s)" by simp
  let ?d1 = "\<lparr>ID = int sec1 * 100 + 1, Text = ''Definition fetched at '' @ kitchen\<rparr>"
  let ?d2 = "\<lparr>ID = int sec2 * 100 + 2, Text = ''Another sample definition text for embedding.''\<rparr>"
  from send_or_skip_open [OF op] obtain ch1 lg1
    where a1: "send_or_skip ?d1 (defsToProcessChan s) (logged s) = Inr (ch1, lg1)"
      and o1: "\<not> is_closed ch1" by blast
  from send_or_skip_open [OF o1] obtain ch2 lg2
    where a2: "send_or_skip ?d2 ch1 lg1 = Inr (ch2, lg2)" by blast
  have "run_steps [OrchTick sec1 kitchen sec2, OrchFetchSend, OrchFetchSend, OrchFetchSend] s =
      Some (s\<lparr>defsToProcessChan := ch2, logged := lg2, orchestrator := OSelect\<rparr>)"
    using assms(2-4) d(1) a1 a2 by (simp add: step_def dummyDefinitions_def)
  moreover have "fetchAndSendDefinitions sec1 kitchen sec2 (defsToProcessChan s) (logged s) =
      Inr (ch2, lg2)"
    using a1 a2 by (simp add: fetchAndSendDefinitions_def dummyDefinitions_def)
  ultimately show ?thesis using d(1) by simp
qed

text \<open>The shutdown completes: it cannot get stuck, and every step brings the end nearer.\<close>

lemma stop_inv_init: "stop_inv StartEmbeddingCalculatorService"
  by (simp add: stop_inv_def StartEmbeddingCalculatorService_def)

lemma orchestrator_crash [simp]:
  "orchestrator (crash p s) = orchestrator s" "stopChan_closed (crash p s) = stopChan_closed s"
  by (simp_all add: crash_def)

lemma stop_inv_go_step:
  assumes "stop_inv s" "go_step a s = Some s'" shows "stop_inv s'"
proof (cases a)
  case OrchSpawnWorker
  with assms show ?thesis
    by (auto simp: stop_inv_def split: orchestrator_pc.splits if_splits)
next
  case OrchFetchSend
  with assms show ?thesis
    by (auto simp: stop_inv_def split: orchestrator_pc.splits list.splits sum.splits)
next
  case OrchCloseDefs
  with assms show ?thesis
    by (auto simp: stop_inv_def split: if_splits sum.splits)
next
  case (WorkerReceive w)
  with assms show ?thesis
    by (auto simp: stop_inv_def split: if_splits recv_attempt.splits)
next
  case (WorkerSend w)
  with assms show ?thesis
    by (auto simp: stop_inv_def split: if_splits worker_pc.splits send_attempt.splits)
next
  case (WorkerDone w)
  with assms show ?thesis
    by (auto simp: stop_inv_def split: if_splits sum.splits)
next
  case UpdaterReceive
  with assms show ?thesis
    by (auto simp: stop_inv_def split: if_splits recv_attempt.splits)
next
  case UpdaterDone
  with assms show ?thesis
    by (auto simp: stop_inv_def split: if_splits sum.splits)
next
  case CloserClose
  with assms show ?thesis
    by (auto simp: stop_inv_def split: if_splits sum.splits)
qed (use assms in \<open>auto simp: stop_inv_def split: if_splits\<close>)

lemma service_reachable_stop_inv: "service_reachable s \<Longrightarrow> stop_inv s"
proof (induction rule: service_reachable.induct)
  case service_init
  show ?case by (rule stop_inv_init)
next
  case (service_step s a s')
  then show ?case by (auto simp: step_def split: if_splits intro: stop_inv_go_step)
qed

lemma worker_steps_update:
  "i < length ws \<Longrightarrow>
     sum_list (map worker_steps (ws[i := w])) + worker_steps (ws ! i) =
     sum_list (map worker_steps ws) + worker_steps w"
proof (induction ws arbitrary: i)
  case Nil
  then show ?case by simp
next
  case (Cons x xs)
  show ?case
  proof (cases i)
    case 0
    then show ?thesis by simp
  next
    case (Suc j)
    with Cons.prems have "j < length xs" by simp
    from Cons.IH [OF this] Suc show ?thesis by simp
  qed
qed

lemma shutdown_step_decreases:
  assumes inv: "service_inv s" and st: "stop_inv s" and stopping: "stopping s"
    and step: "step a s = Some s'"
  shows "shutdown_steps s' < shutdown_steps s \<and> (stopping s' \<or> orchestrator s' = OReturned)"
proof -
  note d = service_invD [OF inv]
  from step d(1) have go: "go_step a s = Some s'" by (simp add: step_def)
  from st stopping have sc: "stopChan_closed s" by (auto simp: stop_inv_def stopping_def)
  from stopping have o: "orchestrator s = OStopping \<or> orchestrator s = OWaitMain"
    by (simp add: stopping_def)
  show ?thesis
  proof (cases a)
    case OrchSpawnWorker
    with go o show ?thesis by (auto split: orchestrator_pc.splits)
  next
    case OrchSpawnUpdater
    with go o show ?thesis by (auto split: if_splits)
  next
    case OrchSpawnCloser
    with go o show ?thesis by (auto split: if_splits)
  next
    case (OrchTick x1 x2 x3)
    with go o show ?thesis by (auto split: if_splits)
  next
    case OrchFetchSend
    with go o show ?thesis by (auto split: orchestrator_pc.splits)
  next
    case CloseStopChan
    with go sc show ?thesis by simp
  next
    case OrchStop
    with go o show ?thesis by (auto split: if_splits)
  next
    case OrchCloseDefs
    with go have os: "orchestrator s = OStopping" by (auto split: if_splits)
    with d(6) have "\<not> is_closed (defsToProcessChan s)" by simp
    with go OrchCloseDefs os
    have s': "s' = s\<lparr>defsToProcessChan := (defsToProcessChan s)\<lparr>is_closed := True\<rparr>,
        orchestrator := OWaitMain\<rparr>"
      by (simp add: close_chan_def)
    show ?thesis unfolding s' by (simp add: shutdown_steps_def stopping_def os)
  next
    case OrchWaitReturn
    with go have ow: "orchestrator s = OWaitMain" and s': "s' = s\<lparr>orchestrator := OReturned\<rparr>"
      by (auto split: if_splits)
    show ?thesis unfolding s' by (simp add: shutdown_steps_def ow)
  next
    case (WorkerReceive w)
    with go have w: "w < length (workers s)" "workers s ! w = WReceive"
      by (auto split: if_splits)
    show ?thesis
    proof (cases "buf (defsToProcessChan s)")
      case Nil
      with go WorkerReceive w have s': "s' = s\<lparr>workers := (workers s)[w := WReturn]\<rparr>"
        by (auto simp: try_recv_def split: if_splits)
      from worker_steps_update [OF w(1), of WReturn] w(2) stopping show ?thesis
        unfolding s' by (simp add: shutdown_steps_def stopping_def)
    next
      case (Cons x xs)
      with go WorkerReceive w
      have s': "s' = s\<lparr>defsToProcessChan := (defsToProcessChan s)\<lparr>buf := xs\<rparr>,
                        logged := logged s @ [WorkerReceived w (ID x)],
                        workers := (workers s)[w := WSend
                          \<lparr>DefinitionID = ID x, Embedding = dummy_embedding (ID x) w,
                           Error = None\<rparr>]\<rparr>"
        by (auto simp: try_recv_def)
      from worker_steps_update [OF w(1), of "WSend \<lparr>DefinitionID = ID x,
          Embedding = dummy_embedding (ID x) w, Error = None\<rparr>"] w(2) stopping
      show ?thesis unfolding s' by (simp add: shutdown_steps_def stopping_def Cons)
    qed
  next
    case (WorkerSend w)
    with go obtain r where w: "w < length (workers s)" "workers s ! w = WSend r"
      by (auto split: if_splits worker_pc.splits)
    have "active_workers (workers s) \<noteq> 0" using active_zero [of "workers s" w] w by auto
    with d(5) d(9) d(10) have "\<not> is_closed (resultsChan s)" by auto
    with go WorkerSend w
    have s': "s' = s\<lparr>resultsChan := (resultsChan s)\<lparr>buf := buf (resultsChan s) @ [r]\<rparr>,
         workers := (workers s)[w := WReceive]\<rparr>"
      by (auto simp: try_send_def split: if_splits)
    from worker_steps_update [OF w(1), of WReceive] w(2) stopping show ?thesis
      unfolding s' by (simp add: shutdown_steps_def stopping_def)
  next
    case (WorkerDone w)
    with go have w: "w < length (workers s)" "workers s ! w = WReturn"
      by (auto split: if_splits)
    have "0 < active_workers (workers s)" using active_update_exit [OF w(1)] w(2) by simp
    with d(5) go WorkerDone w
    have s': "s' = s\<lparr>processorsWg := processorsWg s - 1, workers := (workers s)[w := WExited]\<rparr>"
      by (auto simp: wg_done_def)
    from worker_steps_update [OF w(1), of WExited] w(2) stopping show ?thesis
      unfolding s' by (simp add: shutdown_steps_def stopping_def)
  next
    case UpdaterReceive
    with go have u: "updater s = UReceive" by (auto split: if_splits)
    show ?thesis
    proof (cases "buf (resultsChan s)")
      case Nil
      with go UpdaterReceive u have s': "s' = s\<lparr>updater := UReturn\<rparr>"
        by (auto simp: try_recv_def split: if_splits)
      from stopping show ?thesis unfolding s' by (simp add: shutdown_steps_def stopping_def u)
    next
      case (Cons r rs)
      with go UpdaterReceive u obtain l where
        s': "s' = s\<lparr>resultsChan := (resultsChan s)\<lparr>buf := rs\<rparr>, logged := logged s @ [l]\<rparr>"
        by (auto simp: try_recv_def)
      from stopping show ?thesis unfolding s' by (simp add: shutdown_steps_def stopping_def Cons)
    qed
  next
    case UpdaterDone
    with go have u: "updater s = UReturn" by (auto split: if_splits)
    with d(11) have "mainWg s = 1" by simp
    with go UpdaterDone u have s': "s' = s\<lparr>mainWg := 0, updater := UExited\<rparr>"
      by (auto simp: wg_done_def)
    from stopping show ?thesis unfolding s' by (simp add: shutdown_steps_def stopping_def u)
  next
    case CloserWait
    with go have c: "closer s = CWait" and s': "s' = s\<lparr>closer := CClose\<rparr>"
      by (auto split: if_splits)
    from stopping show ?thesis unfolding s' by (simp add: shutdown_steps_def stopping_def c)
  next
    case CloserClose
    with go have c: "closer s = CClose" by (auto split: if_splits)
    with d(10) have "\<not> is_closed (resultsChan s)" by simp
    with go CloserClose c
    have s': "s' = s\<lparr>resultsChan := (resultsChan s)\<lparr>is_closed := True\<rparr>, closer := CExited\<rparr>"
      by (auto simp: close_chan_def)
    from stopping show ?thesis unfolding s' by (simp add: shutdown_steps_def stopping_def c)
  qed
qed

lemma some_active: "active_workers ws \<noteq> 0 \<Longrightarrow> \<exists>w < length ws. ws ! w \<noteq> WExited"
proof -
  assume "active_workers ws \<noteq> 0"
  then obtain x where "x \<in> set ws" "x \<noteq> WExited"
    by (auto simp: active_workers_def filter_empty_conv)
  then show ?thesis by (auto simp: in_set_conv_nth)
qed

lemma shutdown_can_step:
  assumes inv: "service_inv s" and stopping: "stopping s"
  shows "\<exists>a s'. step a s = Some s'"
proof -
  note d = service_invD [OF inv]
  have live: "step a s = go_step a s" for a using d(1) by (simp add: step_def)
  show ?thesis
  proof (cases "orchestrator s = OStopping")
    case True
    with d(6) have "\<not> is_closed (defsToProcessChan s)" by simp
    with True have "\<exists>s'. go_step OrchCloseDefs s = Some s'" by (simp add: close_chan_def)
    then show ?thesis using live by metis
  next
    case False
    with stopping have ow: "orchestrator s = OWaitMain" by (simp add: stopping_def)
    with d(6) have dc: "is_closed (defsToProcessChan s)" by simp
    from ow d(8) have cs: "closer s \<noteq> CNotStarted" by (simp add: spawning_def)
    consider (exited) "updater s = UExited" | (ret) "updater s = UReturn"
      | (recv) "updater s = UReceive" | (none) "updater s = UNotStarted"
      by (cases "updater s") auto
    then show ?thesis
    proof cases
      case exited
      with d(11) ow have "\<exists>s'. go_step OrchWaitReturn s = Some s'" by simp
      then show ?thesis using live by metis
    next
      case ret
      with d(11) have "\<exists>s'. go_step UpdaterDone s = Some s'" by (simp add: wg_done_def)
      then show ?thesis using live by metis
    next
      case none
      with inv ow show ?thesis by (simp add: service_inv_def)
    next
      case recv
      show ?thesis
      proof (cases "buf (resultsChan s) = [] \<and> \<not> is_closed (resultsChan s)")
        case False
        with recv have "\<exists>s'. go_step UpdaterReceive s = Some s'"
          by (cases "buf (resultsChan s)") (auto simp: try_recv_def)
        then show ?thesis using live by metis
      next
        case True
        with d(10) have ne: "closer s \<noteq> CExited" by simp
        show ?thesis
        proof (cases "closer s = CClose")
          case True
          with \<open>buf (resultsChan s) = [] \<and> \<not> is_closed (resultsChan s)\<close>
          have "\<exists>s'. go_step CloserClose s = Some s'" by (simp add: close_chan_def)
          then show ?thesis using live by metis
        next
          case False
          with cs ne have cw: "closer s = CWait" by (cases "closer s") auto
          show ?thesis
          proof (cases "processorsWg s = 0")
            case True
            with cw have "\<exists>s'. go_step CloserWait s = Some s'" by simp
            then show ?thesis using live by metis
          next
            case False
            with d(5) have "active_workers (workers s) \<noteq> 0" by simp
            from some_active [OF this] obtain w
              where w: "w < length (workers s)" "workers s ! w \<noteq> WExited" by blast
            show ?thesis
            proof (cases "workers s ! w")
              case WReceive
              with w dc have "\<exists>s'. go_step (WorkerReceive w) s = Some s'"
                by (cases "buf (defsToProcessChan s)") (auto simp: try_recv_def)
              then show ?thesis using live by metis
            next
              case (WSend r)
              with w True d(3) have "\<exists>s'. go_step (WorkerSend w) s = Some s'"
                by (simp add: try_send_def)
              then show ?thesis using live by metis
            next
              case WReturn
              with w False have "\<exists>s'. go_step (WorkerDone w) s = Some s'"
                by (simp add: wg_done_def)
              then show ?thesis using live by metis
            next
              case WExited
              with w show ?thesis by simp
            qed
          qed
        qed
      qed
    qed
  qed
qed

lemma stopping_run_state:
  "run_steps stopping_run StartEmbeddingCalculatorService = Some stopping_state"
  by (simp add: stopping_run_def started_run_def stopping_state_def run_simps)

lemma stopping_state_reachable: "service_reachable stopping_state"
  using run_steps_reachable [OF service_init stopping_run_state] .

lemma shutdown_completes:
  assumes "service_reachable s" "stopping s"
  shows "(\<exists>a s'. step a s = Some s') \<and>
     (\<forall>a s'. step a s = Some s' \<longrightarrow>
        shutdown_steps s' < shutdown_steps s \<and> (stopping s' \<or> orchestrator s' = OReturned))"
  using shutdown_can_step [OF service_reachable_inv [OF assms(1)] assms(2)]
    shutdown_step_decreases [OF service_reachable_inv [OF assms(1)]
      service_reachable_stop_inv [OF assms(1)] assms(2)]
  by blast

subsection \<open>The claims about the service\<close>

text \<open>
  Claim C1. In every state the service can reach there has been no panic, and the
  shutdown has gone in order: a worker has left its loop only after \<^verbatim>\<open>defsToProcessChan\<close>
  was closed and drained; \<^verbatim>\<open>resultsChan\<close> is closed only when all three workers have
  exited and \<^verbatim>\<open>processorsWg\<close> is zero; the updater has left its loop only after
  \<^verbatim>\<open>resultsChan\<close> was closed and drained; and the orchestrator has returned only after
  the stop channel was closed and the updater has exited.
\<close>

theorem shutdown_sequence_ordered:
  assumes "service_reachable s"
  shows "panicked s = None \<and>
    ((\<exists>w \<in> set (workers s). w = WReturn \<or> w = WExited) \<longrightarrow>
       is_closed (defsToProcessChan s) \<and> buf (defsToProcessChan s) = []) \<and>
    (is_closed (resultsChan s) \<longrightarrow>
       length (workers s) = numProcessorWorkers \<and> (\<forall>w \<in> set (workers s). w = WExited) \<and>
       processorsWg s = 0 \<and> is_closed (defsToProcessChan s)) \<and>
    (updater s = UReturn \<or> updater s = UExited \<longrightarrow>
       is_closed (resultsChan s) \<and> buf (resultsChan s) = []) \<and>
    (orchestrator s = OReturned \<longrightarrow>
       updater s = UExited \<and> mainWg s = 0 \<and> stopChan_closed s)"
proof -
  from assms have inv: "service_inv s" by (rule service_reachable_inv)
  note d = service_invD [OF inv]
  have w: "(\<exists>w \<in> set (workers s). w = WReturn \<or> w = WExited) \<longrightarrow>
       is_closed (defsToProcessChan s) \<and> buf (defsToProcessChan s) = []"
    using d(7) by (simp add: left_loop_def)
  have r: "is_closed (resultsChan s) \<longrightarrow>
       length (workers s) = numProcessorWorkers \<and> (\<forall>w \<in> set (workers s). w = WExited) \<and>
       processorsWg s = 0 \<and> is_closed (defsToProcessChan s)"
    using workers_all_exited [OF inv] by blast
  have o: "orchestrator s = OReturned \<longrightarrow>
       updater s = UExited \<and> mainWg s = 0 \<and> stopChan_closed s"
    using d(11) d(13) service_reachable_stop_inv [OF assms] by (simp add: stop_inv_def)
  show ?thesis
    by (intro conjI) (rule d(1), rule w, rule r, rule d(12), rule o)
qed

theorem shutdown_sequence_ordered_witness:
  "run_steps demo_run StartEmbeddingCalculatorService = Some demo_final \<and>
   service_reachable demo_final \<and> orchestrator demo_final = OReturned \<and>
   updater demo_final = UExited \<and> mainWg demo_final = 0 \<and> stopChan_closed demo_final \<and>
   is_closed (resultsChan demo_final) \<and> buf (resultsChan demo_final) = [] \<and>
   workers demo_final = [WExited, WExited, WExited] \<and> processorsWg demo_final = 0 \<and>
   is_closed (defsToProcessChan demo_final) \<and> buf (defsToProcessChan demo_final) = [] \<and>
   panicked demo_final = None"
proof -
  have o: "orchestrator demo_final = OReturned" and w: "workers demo_final = [WExited, WExited, WExited]"
    by (simp_all add: demo_final_def)
  from shutdown_sequence_ordered [OF demo_final_reachable] o w
  have "updater demo_final = UExited \<and> mainWg demo_final = 0 \<and> stopChan_closed demo_final \<and>
   is_closed (resultsChan demo_final) \<and> buf (resultsChan demo_final) = [] \<and>
   processorsWg demo_final = 0 \<and>
   is_closed (defsToProcessChan demo_final) \<and> buf (defsToProcessChan demo_final) = [] \<and>
   panicked demo_final = None"
    by simp
  with o w demo_final_reachable demo_run_final show ?thesis by blast
qed

text \<open>
  Claim C2, as stated, fails. In the example run every definition that was sent is
  handled by the updater, but the identifiers are not distinct: the ticks at second 7 of
  two consecutive minutes both produce 701 and 702.
\<close>

theorem sink_ids_not_distinct_counterexample:
  "run_steps demo_run StartEmbeddingCalculatorService = Some demo_final \<and>
   orchestrator demo_final = OReturned \<and>
   sent_ids (logged demo_final) = [701, 702, 2201, 2202, 3701, 3702, 5201, 5202, 701, 702] \<and>
   handled_ids (logged demo_final) = [701, 702, 2201, 2202, 3701, 3702, 5201, 5202, 701, 702] \<and>
   \<not> distinct (handled_ids (logged demo_final))"
  using demo_run_final
  by (simp add: demo_final_def demo_log_def sent_ids_def handled_ids_def)

text \<open>
  Claim C2, amended. At every moment the identifiers the fetcher has sent are, counted
  with multiplicity, those still in the input channel and those received by a worker;
  those received are the ones held by a worker, in the output channel or handled by the
  updater. Once the orchestrator has taken the stop case some goroutine can always take
  a step and every step lowers \<open>shutdown_steps\<close>, so the orchestrator returns; and
  once it has returned, the updater has handled exactly the identifiers that were sent,
  each as often as it was sent.
\<close>

theorem no_loss_no_duplication:
  assumes "service_reachable s"
  shows "mset (sent_ids (logged s)) =
       mset (map ID (buf (defsToProcessChan s))) + mset (received_ids (logged s)) \<and>
     mset (received_ids (logged s)) =
       mset (in_flight_ids (workers s)) + mset (map DefinitionID (buf (resultsChan s))) +
       mset (handled_ids (logged s)) \<and>
     (stopping s \<longrightarrow>
        (\<exists>a s'. step a s = Some s') \<and>
        (\<forall>a s'. step a s = Some s' \<longrightarrow>
           shutdown_steps s' < shutdown_steps s \<and> (stopping s' \<or> orchestrator s' = OReturned))) \<and>
     (orchestrator s = OReturned \<longrightarrow>
        mset (received_ids (logged s)) = mset (sent_ids (logged s)) \<and>
        mset (handled_ids (logged s)) = mset (sent_ids (logged s)) \<and>
        length (handled_ids (logged s)) = length (sent_ids (logged s)) \<and>
        distinct (handled_ids (logged s)) = distinct (sent_ids (logged s)))"
proof -
  from assms have inv: "service_inv s" by (rule service_reachable_inv)
  note d = service_invD [OF inv]
  from assms have "conservation s" by (rule service_reachable_conservation)
  then have c1: "mset (sent_ids (logged s)) =
       mset (map ID (buf (defsToProcessChan s))) + mset (received_ids (logged s))"
    and c2: "mset (received_ids (logged s)) =
       mset (in_flight_ids (workers s)) + mset (map DefinitionID (buf (resultsChan s))) +
       mset (handled_ids (logged s))"
    by (simp_all add: conservation_def)
  have fin: "mset (received_ids (logged s)) = mset (sent_ids (logged s)) \<and>
        mset (handled_ids (logged s)) = mset (sent_ids (logged s)) \<and>
        length (handled_ids (logged s)) = length (sent_ids (logged s)) \<and>
        distinct (handled_ids (logged s)) = distinct (sent_ids (logged s))"
    if o: "orchestrator s = OReturned"
  proof -
    from d(13) o have u: "updater s = UExited" by simp
    with d(12) have rc: "is_closed (resultsChan s)" and rb: "buf (resultsChan s) = []"
      by simp_all
    note x = workers_all_exited [OF inv rc]
    from c1 x(5) have m1: "mset (received_ids (logged s)) = mset (sent_ids (logged s))"
      by simp
    from c2 rb in_flight_exited [OF x(2)] m1
    have m2: "mset (handled_ids (logged s)) = mset (sent_ids (logged s))"
      by simp
    from m2 have "length (handled_ids (logged s)) = length (sent_ids (logged s))"
      by (rule mset_eq_length)
    moreover from m2 have "distinct (handled_ids (logged s)) = distinct (sent_ids (logged s))"
      by (rule mset_eq_imp_distinct_iff)
    ultimately show ?thesis using m1 m2 by blast
  qed
  have live: "stopping s \<longrightarrow>
        (\<exists>a s'. step a s = Some s') \<and>
        (\<forall>a s'. step a s = Some s' \<longrightarrow>
           shutdown_steps s' < shutdown_steps s \<and> (stopping s' \<or> orchestrator s' = OReturned))"
    using shutdown_completes [OF assms] by blast
  show ?thesis
    by (intro conjI) (rule c1, rule c2, rule live, use fin in blast)
qed

theorem no_loss_no_duplication_witness:
  "service_reachable demo_final \<and> orchestrator demo_final = OReturned \<and>
   mset (handled_ids (logged demo_final)) = mset (sent_ids (logged demo_final)) \<and>
   mset (received_ids (logged demo_final)) = mset (sent_ids (logged demo_final)) \<and>
   length (handled_ids (logged demo_final)) = 10 \<and> length (sent_ids (logged demo_final)) = 10 \<and>
   service_reachable stopping_state \<and> stopping stopping_state \<and>
   step OrchCloseDefs stopping_state =
     Some (stopping_state\<lparr>defsToProcessChan := (defsToProcessChan stopping_state)\<lparr>is_closed := True\<rparr>,
        orchestrator := OWaitMain\<rparr>) \<and>
   shutdown_steps (stopping_state\<lparr>defsToProcessChan :=
        (defsToProcessChan stopping_state)\<lparr>is_closed := True\<rparr>, orchestrator := OWaitMain\<rparr>)
     < shutdown_steps stopping_state"
proof -
  have o: "orchestrator demo_final = OReturned" by (simp add: demo_final_def)
  have l: "length (sent_ids (logged demo_final)) = 10"
    by (simp add: demo_final_def demo_log_def sent_ids_def)
  from no_loss_no_duplication [OF demo_final_reachable] o
  have a: "mset (handled_ids (logged demo_final)) = mset (sent_ids (logged demo_final)) \<and>
   mset (received_ids (logged demo_final)) = mset (sent_ids (logged demo_final)) \<and>
   length (handled_ids (logged demo_final)) = length (sent_ids (logged demo_final))"
    by blast
  have s: "stopping stopping_state" by (simp add: stopping_def stopping_state_def)
  have c: "step OrchCloseDefs stopping_state =
     Some (stopping_state\<lparr>defsToProcessChan := (defsToProcessChan stopping_state)\<lparr>is_closed := True\<rparr>,
        orchestrator := OWaitMain\<rparr>)"
    by (simp add: stopping_state_def step_def close_chan_def)
  from no_loss_no_duplication [OF stopping_state_reachable] s c
  have b: "shutdown_steps (stopping_state\<lparr>defsToProcessChan :=
        (defsToProcessChan stopping_state)\<lparr>is_closed := True\<rparr>, orchestrator := OWaitMain\<rparr>)
     < shutdown_steps stopping_state"
    by blast
  from a b o l s c demo_final_reachable stopping_state_reachable show ?thesis by simp
qed

text \<open>
  Claim C7. When the fetcher is at a definition of the tick's batch, its send attempt is
  a step it can always take: with fewer than 10 definitions in the input channel the
  definition is enqueued (and the send logged), with 10 the channel is left as it is and
  the skip is logged; either way the fetcher moves on to the next definition.
\<close>

theorem fetcher_send_is_nonblocking:
  assumes "service_reachable s" "orchestrator s = OFetch (d # ds)"
  shows "cap (defsToProcessChan s) = 10 \<and>
     step OrchFetchSend s =
       Some (if length (buf (defsToProcessChan s)) < 10
             then s\<lparr>defsToProcessChan :=
                      (defsToProcessChan s)\<lparr>buf := buf (defsToProcessChan s) @ [d]\<rparr>,
                    logged := logged s @ [FetcherSent (ID d)],
                    orchestrator := OFetch ds\<rparr>
             else s\<lparr>logged := logged s @ [FetcherSkipped (ID d)],
                    orchestrator := OFetch ds\<rparr>)"
proof -
  note d = service_invD [OF service_reachable_inv [OF assms(1)]]
  from d(6) assms(2) have "\<not> is_closed (defsToProcessChan s)" by simp
  with d(1) d(2) assms(2) show ?thesis
    by (simp add: step_def send_or_skip_def try_send_def)
qed

theorem fetcher_send_is_nonblocking_witness:
  "service_reachable backlog_state \<and>
   orchestrator backlog_state =
     OFetch [\<lparr>ID = 2202, Text = ''Another sample definition text for embedding.''\<rparr>] \<and>
   length (buf (defsToProcessChan backlog_state)) = 10 \<and>
   cap (defsToProcessChan backlog_state) = 10 \<and>
   step OrchFetchSend backlog_state =
     Some (backlog_state\<lparr>logged := logged backlog_state @ [FetcherSkipped 2202],
                           orchestrator := OFetch []\<rparr>)"
proof -
  have o: "orchestrator backlog_state =
     OFetch [\<lparr>ID = 2202, Text = ''Another sample definition text for embedding.''\<rparr>]"
    by (simp add: backlog_state_def)
  have l: "length (buf (defsToProcessChan backlog_state)) = 10"
    by (simp add: backlog_state_def backlog_def dummyDefinitions_def)
  from fetcher_send_is_nonblocking [OF backlog_state_reachable o] l
  have "cap (defsToProcessChan backlog_state) = 10 \<and>
   step OrchFetchSend backlog_state =
     Some (backlog_state\<lparr>logged := logged backlog_state @ [FetcherSkipped 2202],
                           orchestrator := OFetch []\<rparr>)"
    by simp
  with o l backlog_state_reachable show ?thesis by blast
qed

end
